theory Spec2Isabelle
  imports Complex_Main
begin

chapter \<open>Project Sentinel: the triage engine and its guards\<close>

text \<open>
  A shallow embedding of the parts of the repository that its specification makes
  claims about: the agents of the triage pipeline (fraud scoring, knowledge-base
  retrieval, insights), the rate limiter, the orchestrator with its circuit breakers
  and fallbacks, the action routes with their idempotency cache and one-time password,
  and the redactor with its three regular expressions. The definitions come first,
  component by component; the theorems about them follow.
\<close>

section \<open>Shared data\<close>

text \<open>
  JavaScript numbers are modelled exactly: counts and amounts in cents are integers, and
  the few quotients and halves the code forms (averages, \<open>riskScore * 0.5\<close>,
  \<open>score * 0.7\<close>) are rationals. Strings are lists of characters, one per code unit,
  with code units below 256.
\<close>

datatype level = low | medium | high

text \<open>The fields of a transaction row that the agents read.\<close>

record txn =
  amountCents :: int
  merchant :: string
  mcc :: string

text \<open>
  \<open>String.prototype.includes\<close> and the test of a regular expression that is an
  alternation of literal words: is the needle a contiguous part of the text?
\<close>

fun starts_with :: "string \<Rightarrow> string \<Rightarrow> bool" where
  "starts_with [] text = True"
| "starts_with (c # cs) [] = False"
| "starts_with (c # cs) (t # ts) = (c = t \<and> starts_with cs ts)"

fun js_includes :: "string \<Rightarrow> string \<Rightarrow> bool" where
  "js_includes needle [] = starts_with needle []"
| "js_includes needle (t # ts) = (starts_with needle (t # ts) \<or> js_includes needle ts)"

text \<open>
  \<open>toLowerCase\<close> on characters below 256: the letters A to Z and the accented capitals
  of Latin-1 move up by 32, every other character stays. (A regular expression with the
  ignore-case flag and a pattern of ASCII letters matches the same texts as the
  pattern in lower case does on the text in lower case.)
\<close>

definition lower_char :: "char \<Rightarrow> char" where
  "lower_char c =
     (let n = (of_char c :: nat)
      in if (65 \<le> n \<and> n \<le> 90) \<or> (192 \<le> n \<and> n \<le> 222 \<and> n \<noteq> 215)
         then char_of (n + 32) else c)"

definition toLowerCase :: "string \<Rightarrow> string" where
  "toLowerCase s = map lower_char s"

text \<open>\<open>Math.round\<close>: the nearest integer, a half rounded up.\<close>

definition js_round :: "rat \<Rightarrow> int" where
  "js_round x = \<lfloor>x + 1 / 2\<rfloor>"

text \<open>The character classes \<open>\d\<close>, \<open>\w\<close> and \<open>\s\<close> of a regular expression, for characters below 256.\<close>

definition is_digit :: "char \<Rightarrow> bool" where
  "is_digit c = (let n = (of_char c :: nat) in 48 \<le> n \<and> n \<le> 57)"

definition is_alpha :: "char \<Rightarrow> bool" where
  "is_alpha c = (let n = (of_char c :: nat) in (65 \<le> n \<and> n \<le> 90) \<or> (97 \<le> n \<and> n \<le> 122))"

definition is_word_char :: "char \<Rightarrow> bool" where
  "is_word_char c = (is_alpha c \<or> is_digit c \<or> c = CHR ''_'')"

definition is_space :: "char \<Rightarrow> bool" where
  "is_space c = ((of_char c :: nat) \<in> {9, 10, 11, 12, 13, 32, 160})"

text \<open>The decimal digits of a natural number, as a template string prints it.\<close>

fun show_nat :: "nat \<Rightarrow> string" where
  "show_nat n = (if n < 10 then [char_of (48 + n)] else show_nat (n div 10) @ [char_of (48 + n mod 10)])"

section \<open>Insights agent (the \<open>decide\<close> step)\<close>

datatype fraud_action = fa_freeze_card | fa_open_dispute | fa_monitor

text \<open>
  The \<open>riskSignals\<close> entry of the context: the fraud agent's result, or the object a
  fallback or a default puts in its place. \<open>rs_action = None\<close> is \<open>action: null\<close> or a
  missing field.
\<close>

record risk_signals =
  rs_score :: int
  rs_reasons :: "string list"
  rs_action :: "fraud_action option"

datatype txn_pattern = regular | concentrated | high_frequency | high_value

record customer_profile =
  riskTier :: level
  transactionPattern :: txn_pattern
  historicalIncidents :: nat

record risk_assessment =
  ra_level :: level
  ra_confidence :: int
  ra_keyFactors :: "string list"

definition totalAmount :: "txn list \<Rightarrow> int" where
  "totalAmount transactions = foldl (\<lambda>sum t. sum + amountCents t) 0 transactions"

definition analyzeCustomerProfile :: "txn list \<Rightarrow> customer_profile" where
  "analyzeCustomerProfile transactions =
     (if length transactions = 0
      then \<lparr>riskTier = low, transactionPattern = regular, historicalIncidents = 0\<rparr>
      else
        let avgAmount = (of_int (totalAmount transactions) :: rat) / of_nat (length transactions);
            uniqueMerchants = card (set (map merchant transactions));
            total = totalAmount transactions;
            tier = (if total > 500000 \<or> avgAmount > 50000 then high
                    else if total > 200000 \<or> avgAmount > 20000 then medium
                    else low);
            pat = (if uniqueMerchants < 3 \<and> length transactions > 10 then concentrated
                   else if length transactions > 50 then high_frequency
                   else if avgAmount > 30000 then high_value
                   else regular)
        in \<lparr>riskTier = tier, transactionPattern = pat, historicalIncidents = 0\<rparr>)"

definition extractKeyFactors :: "risk_signals \<Rightarrow> customer_profile \<Rightarrow> string list" where
  "extractKeyFactors riskSignals customerProfile =
     take 5
       (take 3 (rs_reasons riskSignals)
        @ (if riskTier customerProfile = high then [''High-value customer profile''] else [])
        @ (if transactionPattern customerProfile = concentrated
             then [''Limited merchant diversity'']
           else if transactionPattern customerProfile = high_frequency
             then [''High transaction frequency'']
           else [])
        @ (if historicalIncidents customerProfile > 0
           then [show_nat (historicalIncidents customerProfile) @ '' previous incident(s)'']
           else []))"

definition score_level :: "int \<Rightarrow> level" where
  "score_level score = (if score \<ge> 80 then high else if score \<ge> 50 then medium else low)"

definition generateRiskAssessment :: "risk_signals \<Rightarrow> customer_profile \<Rightarrow> risk_assessment" where
  "generateRiskAssessment riskSignals customerProfile =
     (let score = (if rs_score riskSignals = 0 then 30 else rs_score riskSignals);
          level0 = score_level score;
          lvl = (if riskTier customerProfile = high \<and> level0 = medium then high else level0);
          c0 = (70::int);
          c1 = (if length (rs_reasons riskSignals) > 3 then c0 + 15 else c0);
          c2 = (if historicalIncidents customerProfile = 0 then c1 + 10 else c1);
          c3 = (if transactionPattern customerProfile = regular then c2 + 5 else c2)
      in \<lparr>ra_level = lvl, ra_confidence = min c3 95,
          ra_keyFactors = extractKeyFactors riskSignals customerProfile\<rparr>)"

text \<open>
  What \<open>generateInsights\<close> computes for the risk assessment: the profile analysis of the
  recent transactions feeds the assessment of the risk signals.
\<close>

definition insights_riskAssessment :: "risk_signals \<Rightarrow> txn list \<Rightarrow> risk_assessment" where
  "insights_riskAssessment riskSignals transactions =
     generateRiskAssessment riskSignals (analyzeCustomerProfile transactions)"

section \<open>Fraud agent (the \<open>riskSignals\<close> step)\<close>

record velocity =
  txnsLast24h :: int
  amountLast24h :: int
  avgDaily :: rat

record device_analysis =
  newDevice :: bool
  deviceChanges :: nat

record merchant_analysis =
  newMerchant :: bool
  ma_riskScore :: int

record pattern_analysis =
  unusualTime :: bool
  unusualLocation :: bool
  velocitySpike :: bool

definition highRiskMCCs :: "string list" where
  "highRiskMCCs = [''5960'', ''6051'', ''7995'', ''4829'']"

text \<open>The test of \<open>/temp|test|unknown|cash|atm/i\<close> on the merchant's name.\<close>

definition suspiciousPatterns :: "string \<Rightarrow> bool" where
  "suspiciousPatterns name =
     list_ex (\<lambda>w. js_includes w (toLowerCase name))
       [''temp'', ''test'', ''unknown'', ''cash'', ''atm'']"

definition analyzeMerchant :: "txn list \<Rightarrow> txn \<Rightarrow> merchant_analysis" where
  "analyzeMerchant transactions suspectTxn =
     (let isNewMerchant = (merchant suspectTxn \<notin> set (map merchant transactions));
          r0 = (0::int);
          r1 = (if mcc suspectTxn \<in> set highRiskMCCs then r0 + 30 else r0);
          r2 = (if suspiciousPatterns (merchant suspectTxn) then r1 + 20 else r1);
          r3 = (if isNewMerchant then r2 + 15 else r2)
      in \<lparr>newMerchant = isNewMerchant, ma_riskScore = min r3 100\<rparr>)"

definition calculateRiskScore ::
  "velocity \<Rightarrow> device_analysis \<Rightarrow> merchant_analysis \<Rightarrow> pattern_analysis \<Rightarrow> txn \<Rightarrow> int" where
  "calculateRiskScore v device m patterns suspectTxn =
     (let s0 = (0::rat);
          s1 = (if of_int (txnsLast24h v) > avgDaily v * 3 then s0 + 25
                else if of_int (txnsLast24h v) > avgDaily v * 2 then s0 + 15 else s0);
          s2 = (if amountLast24h v > 100000 then s1 + 20 else s1);
          s3 = (if newDevice device then s2 + 20 else s2);
          s4 = (if deviceChanges device > 5 then s3 + 10 else s3);
          s5 = s4 + of_int (ma_riskScore m) * (1 / 2);
          s6 = (if unusualTime patterns then s5 + 15 else s5);
          s7 = (if unusualLocation patterns then s6 + 20 else s6);
          s8 = (if velocitySpike patterns then s7 + 25 else s7);
          s9 = (if amountCents suspectTxn > 50000 then s8 + 15 else s8);
          s10 = (if amountCents suspectTxn > 100000 then s9 + 10 else s9)
      in min (js_round s10) 100)"

text \<open>
  The spec's wording, for comparison: the bounded contributions, their sum, and the
  score as that sum clamped to the interval from 0 to 100.
\<close>

definition spec_contributions ::
  "velocity \<Rightarrow> device_analysis \<Rightarrow> merchant_analysis \<Rightarrow> pattern_analysis \<Rightarrow> txn \<Rightarrow> rat list" where
  "spec_contributions v device m patterns suspectTxn =
     [if of_int (txnsLast24h v) > 3 * avgDaily v then 25
      else if of_int (txnsLast24h v) > 2 * avgDaily v then 15 else 0,
      if amountLast24h v > 100000 then 20 else 0,
      if newDevice device then 20 else 0,
      if deviceChanges device > 5 then 10 else 0,
      of_int (ma_riskScore m) / 2,
      if unusualTime patterns then 15 else 0,
      if unusualLocation patterns then 20 else 0,
      if velocitySpike patterns then 25 else 0,
      if amountCents suspectTxn > 50000 then 15 else 0,
      if amountCents suspectTxn > 100000 then 10 else 0]"

definition spec_composite_score ::
  "velocity \<Rightarrow> device_analysis \<Rightarrow> merchant_analysis \<Rightarrow> pattern_analysis \<Rightarrow> txn \<Rightarrow> rat" where
  "spec_composite_score v device m patterns suspectTxn =
     max 0 (min 100 (sum_list (spec_contributions v device m patterns suspectTxn)))"

section \<open>Knowledge-base agent (the \<open>kbLookup\<close> step)\<close>


record kb_result =
  docId :: string
  title :: string
  anchor :: string
  snippet_extract :: string
  relevanceScore :: nat

record kb_search_result =
  results :: "kb_result list"
  citations :: "string list"























section \<open>Rate limiter\<close>

record RateLimitInfo =
  rl_count :: int
  resetTime :: int

text \<open>
  The backing store, as far as the limiter uses it: a key holds a value and the time (in
  milliseconds) at which it expires; a key is gone once the clock has passed that time.
  \<open>SETEX\<close> takes the time to live in seconds and refuses one that is not positive.
  The parsed and re-serialised JSON value is the record itself.
\<close>

type_synonym redis = "string \<Rightarrow> (RateLimitInfo \<times> int) option"

datatype store_error = StoreError

definition redis_get :: "redis \<Rightarrow> int \<Rightarrow> string \<Rightarrow> RateLimitInfo option" where
  "redis_get r now key =
     (case r key of
        None \<Rightarrow> None
      | Some (v, expiresAt) \<Rightarrow> if now \<le> expiresAt then Some v else None)"

definition redis_setex :: "redis \<Rightarrow> int \<Rightarrow> string \<Rightarrow> int \<Rightarrow> RateLimitInfo \<Rightarrow> store_error + redis" where
  "redis_setex r now key seconds v =
     (if seconds \<le> 0 then Inl StoreError else Inr (r(key := Some (v, now + seconds * 1000))))"

definition js_ceil :: "rat \<Rightarrow> int" where
  "js_ceil x = \<lceil>x\<rceil>"

datatype rl_outcome = Next | Status429 int

text \<open>
  \<open>rateLimitMiddleware\<close> for one request. \<open>windowMs\<close> and \<open>maxRequests\<close> are the
  parsed settings, \<open>now\<close> is the reading of the clock while the request is handled
  (one reading: the handler's three calls of \<open>Date.now()\<close> fall into the same
  millisecond), and \<open>storeUp = False\<close> is a store whose calls throw. The result is
  \<open>next()\<close> or the 429 response with its \<open>retryAfter\<close>, and the store afterwards.
\<close>

definition rateLimitMiddleware ::
  "int \<Rightarrow> int \<Rightarrow> string \<Rightarrow> int \<Rightarrow> bool \<Rightarrow> redis \<Rightarrow> rl_outcome \<times> redis" where
  "rateLimitMiddleware windowMs maxRequests clientId now storeUp r =
     (let key = ''rate_limit:'' @ clientId in
      if \<not> storeUp then (Next, r)
      else
        let rateLimitInfo =
              (case redis_get r now key of
                 Some current \<Rightarrow>
                   if now > resetTime current
                   then \<lparr>rl_count = 1, resetTime = now + windowMs\<rparr>
                   else current\<lparr>rl_count := rl_count current + 1\<rparr>
               | None \<Rightarrow> \<lparr>rl_count = 1, resetTime = now + windowMs\<rparr>)
        in case redis_setex r now key (js_ceil (of_int windowMs / 1000)) rateLimitInfo of
             Inl e \<Rightarrow> (Next, r)
           | Inr r' \<Rightarrow>
               let retryAfter = js_ceil (of_int (resetTime rateLimitInfo - now) / 1000)
               in if rl_count rateLimitInfo > maxRequests then (Status429 retryAfter, r')
                  else (Next, r'))"

text \<open>Requests of one client at the given times, one after the other, the store up.\<close>

fun serve :: "int \<Rightarrow> int \<Rightarrow> string \<Rightarrow> redis \<Rightarrow> int list \<Rightarrow> rl_outcome list" where
  "serve windowMs maxRequests clientId r [] = []"
| "serve windowMs maxRequests clientId r (now # later) =
     (case rateLimitMiddleware windowMs maxRequests clientId now True r of
        (out, r') \<Rightarrow> out # serve windowMs maxRequests clientId r' later)"

text \<open>
  Two conditions on the store, for stating the limiter's behaviour. The window of a
  client is closed at a time when the store holds no live counter for the client or
  the counter's reset time has passed; it is open with count \<open>c\<close> until \<open>R\<close> when the
  store holds that counter and keeps it at least until \<open>R\<close>.
\<close>

definition window_closed :: "redis \<Rightarrow> string \<Rightarrow> int \<Rightarrow> bool" where
  "window_closed r clientId now =
     (case redis_get r now (''rate_limit:'' @ clientId) of
        None \<Rightarrow> True
      | Some info \<Rightarrow> now > resetTime info)"

definition in_window :: "redis \<Rightarrow> string \<Rightarrow> int \<Rightarrow> int \<Rightarrow> bool" where
  "in_window r clientId c R =
     (\<exists>E. r (''rate_limit:'' @ clientId) = Some (\<lparr>rl_count = c, resetTime = R\<rparr>, E) \<and> R \<le> E)"

section \<open>Orchestrator\<close>

datatype action = freeze_card | open_dispute | contact_customer | false_positive

record insights_analysis =
  ia_summary :: string
  ia_riskAssessment :: risk_assessment
  ia_recommendations :: "string list"
  ia_customerProfile :: customer_profile

record compliance_result =
  cr_action :: action
  cr_approved :: bool
  cr_requiresOTP :: bool
  cr_blockedBy :: "string option"

record customer_row =
  cust_id :: string
  cust_kycLevel :: string

text \<open>
  What a step leaves in the context under its name: the result of its agent (the
  profile query returns a customer or null), or the object
  \<open>{fallback: true, reason: 'Service unavailable'}\<close>.
\<close>

datatype ctx_value =
    VProfile "customer_row option"
  | VTransactions "txn list"
  | VRisk risk_signals
  | VKb kb_search_result
  | VInsights insights_analysis
  | VCompliance compliance_result
  | VFallback

type_synonym ctx = "string \<Rightarrow> ctx_value option"

text \<open>
  The agents and the database are outside the orchestrator: a call returns a value or
  throws. A step that exceeds its deadline throws the timeout error of
  \<open>executeWithTimeout\<close>. The later agents read the context.
\<close>

datatype 'a outcome = Returns 'a | Throws string

record agents =
  ag_getProfile :: "customer_row option outcome"
  ag_recentTx :: "txn list outcome"
  ag_riskSignals :: "risk_signals outcome"
  ag_kbLookup :: "string list \<Rightarrow> kb_search_result outcome"
  ag_decide :: "ctx \<Rightarrow> insights_analysis outcome"
  ag_proposeAction :: "ctx \<Rightarrow> compliance_result outcome"
  ag_clock :: "nat \<Rightarrow> int"
  ag_createRun :: bool
  ag_saveResults :: bool

record AgentTrace =
  seq :: nat
  step :: string
  ok :: bool

record breaker =
  failures :: nat
  lastFailure :: int
  isOpen :: bool

type_synonym breakers = "string \<Rightarrow> breaker option"

text \<open>
  The orchestrator's fields while a run executes, with the context of the run and the
  circuit breakers, which are static and so shared by all runs.
\<close>

record orch =
  traces :: "AgentTrace list"
  fallbackUsed :: bool
  run_context :: ctx
  circuitBreakers :: breakers

record TriageResult =
  tr_risk :: level
  tr_reasons :: "string list"
  tr_proposedAction :: action
  tr_confidence :: "rat option"
  tr_citations :: "string list"
  tr_fallbackUsed :: bool
  tr_traces :: "AgentTrace list"

definition buildPlan :: "string list" where
  "buildPlan = [''getProfile'', ''recentTx'', ''riskSignals'', ''kbLookup'', ''decide'',
                ''proposeAction'']"

definition isStepCritical :: "string \<Rightarrow> bool" where
  "isStepCritical s = (s \<in> set [''getProfile'', ''recentTx''])"

text \<open>\<open>isCircuitOpen\<close> closes a breaker whose last failure is more than 30 seconds old.\<close>

definition isCircuitOpen :: "int \<Rightarrow> string \<Rightarrow> breakers \<Rightarrow> bool \<times> breakers" where
  "isCircuitOpen now s bs =
     (case bs s of
        None \<Rightarrow> (False, bs)
      | Some b \<Rightarrow>
          if isOpen b then
            (if now - lastFailure b > 30000
             then (False, bs(s := Some (b\<lparr>isOpen := False, failures := 0\<rparr>)))
             else (True, bs))
          else (False, bs))"

definition recordFailure :: "int \<Rightarrow> string \<Rightarrow> breakers \<Rightarrow> breakers" where
  "recordFailure now s bs =
     (let b = (case bs s of Some b \<Rightarrow> b
               | None \<Rightarrow> \<lparr>failures = 0, lastFailure = 0, isOpen = False\<rparr>);
          b1 = b\<lparr>failures := failures b + 1, lastFailure := now\<rparr>;
          b2 = (if failures b1 \<ge> 3 then b1\<lparr>isOpen := True\<rparr> else b1)
      in bs(s := Some b2))"

definition resetCircuitBreaker :: "string \<Rightarrow> breakers \<Rightarrow> breakers" where
  "resetCircuitBreaker s bs =
     (case bs s of
        None \<Rightarrow> bs
      | Some b \<Rightarrow> bs(s := Some (b\<lparr>failures := 0, isOpen := False\<rparr>)))"

text \<open>The \<open>reasons\<close> that the knowledge-base step reads: \<open>context.riskSignals?.reasons || []\<close>.\<close>

definition reasons_of :: "ctx_value \<Rightarrow> string list option" where
  "reasons_of v = (case v of VRisk rs \<Rightarrow> Some (rs_reasons rs) | _ \<Rightarrow> None)"

definition context_reasons :: "ctx \<Rightarrow> string list" where
  "context_reasons c =
     (case c ''riskSignals'' of
        None \<Rightarrow> []
      | Some v \<Rightarrow> (case reasons_of v of Some rs \<Rightarrow> rs | None \<Rightarrow> []))"

text \<open>The \<open>switch\<close> of \<open>executeStep\<close>; an unknown step throws.\<close>

definition run_agent :: "agents \<Rightarrow> string \<Rightarrow> ctx \<Rightarrow> ctx_value outcome" where
  "run_agent env s c =
     (if s = ''getProfile'' then
        (case ag_getProfile env of Returns v \<Rightarrow> Returns (VProfile v) | Throws e \<Rightarrow> Throws e)
      else if s = ''recentTx'' then
        (case ag_recentTx env of Returns v \<Rightarrow> Returns (VTransactions v) | Throws e \<Rightarrow> Throws e)
      else if s = ''riskSignals'' then
        (case ag_riskSignals env of Returns v \<Rightarrow> Returns (VRisk v) | Throws e \<Rightarrow> Throws e)
      else if s = ''kbLookup'' then
        (case ag_kbLookup env (context_reasons c) of
           Returns v \<Rightarrow> Returns (VKb v) | Throws e \<Rightarrow> Throws e)
      else if s = ''decide'' then
        (case ag_decide env c of Returns v \<Rightarrow> Returns (VInsights v) | Throws e \<Rightarrow> Throws e)
      else if s = ''proposeAction'' then
        (case ag_proposeAction env c of
           Returns v \<Rightarrow> Returns (VCompliance v) | Throws e \<Rightarrow> Throws e)
      else Throws (''Unknown step: '' @ s))"

text \<open>
  \<open>executeStep\<close>: whether the step succeeded, and the orchestrator afterwards. The
  duration and the redacted detail of a trace are left out.
\<close>

definition executeStep :: "agents \<Rightarrow> string \<Rightarrow> nat \<Rightarrow> orch \<Rightarrow> bool \<times> orch" where
  "executeStep env s i st =
     (case isCircuitOpen (ag_clock env i) s (circuitBreakers st) of
        (True, bs) \<Rightarrow> (False, st\<lparr>circuitBreakers := bs\<rparr>)
      | (False, bs) \<Rightarrow>
          (case run_agent env s (run_context st) of
             Returns result \<Rightarrow>
               (True, st\<lparr>traces := traces st @ [\<lparr>seq = i, step = s, ok = True\<rparr>],
                         run_context := (run_context st)(s := Some result),
                         circuitBreakers := resetCircuitBreaker s bs\<rparr>)
           | Throws e \<Rightarrow>
               (False, st\<lparr>traces := traces st @ [\<lparr>seq = i, step = s, ok = False\<rparr>],
                          circuitBreakers := recordFailure (ag_clock env i) s bs\<rparr>)))"

definition triggerFallback :: "string \<Rightarrow> orch \<Rightarrow> orch" where
  "triggerFallback failedStep st =
     (let v = (if failedStep = ''riskSignals''
               then VRisk \<lparr>rs_score = 50, rs_reasons = [''risk_analysis_unavailable''],
                           rs_action = None\<rparr>
               else if failedStep = ''kbLookup''
               then VKb \<lparr>results = [], citations = [''Fallback: Manual review recommended'']\<rparr>
               else VFallback)
      in st\<lparr>fallbackUsed := True, run_context := (run_context st)(failedStep := Some v)\<rparr>)"

text \<open>The loop of \<open>execute\<close> over the plan, from index \<open>i\<close>.\<close>

fun run_plan :: "agents \<Rightarrow> string list \<Rightarrow> nat \<Rightarrow> orch \<Rightarrow> orch" where
  "run_plan env [] i st = st"
| "run_plan env (s # plan) i st =
     (case executeStep env s i st of
        (success, st') \<Rightarrow>
          if \<not> success \<and> isStepCritical s then triggerFallback s st'
          else run_plan env plan (Suc i) st')"

text \<open>
  The fields that \<open>generateDecision\<close> reads; a value that lacks the field gives
  \<open>None\<close> for \<open>undefined\<close>.
\<close>

definition score_of :: "ctx_value \<Rightarrow> int option" where
  "score_of v = (case v of VRisk rs \<Rightarrow> Some (rs_score rs) | _ \<Rightarrow> None)"

definition citations_of :: "ctx_value \<Rightarrow> string list option" where
  "citations_of v = (case v of VKb kb \<Rightarrow> Some (citations kb) | _ \<Rightarrow> None)"

definition action_of :: "ctx_value \<Rightarrow> action option" where
  "action_of v = (case v of VCompliance c \<Rightarrow> Some (cr_action c) | _ \<Rightarrow> None)"

definition generateDecision :: "orch \<Rightarrow> TriageResult" where
  "generateDecision st =
     (let riskSignals = (case run_context st ''riskSignals'' of Some v \<Rightarrow> v
                         | None \<Rightarrow> VRisk \<lparr>rs_score = 30, rs_reasons = [], rs_action = None\<rparr>);
          kbResults = (case run_context st ''kbLookup'' of Some v \<Rightarrow> v
                       | None \<Rightarrow> VKb \<lparr>results = [], citations = []\<rparr>);
          complianceCheck = (case run_context st ''proposeAction'' of Some v \<Rightarrow> v
                             | None \<Rightarrow> VCompliance \<lparr>cr_action = contact_customer,
                                 cr_approved = True, cr_requiresOTP = False, cr_blockedBy = None\<rparr>);
          risk0 = (case score_of riskSignals of
                     Some score \<Rightarrow> if score \<ge> 80 then high else if score \<ge> 50 then medium else low
                   | None \<Rightarrow> low);
          risk = (if fallbackUsed st \<and> risk0 = high then medium else risk0);
          proposedAction = (case action_of complianceCheck of
                              Some a \<Rightarrow> a
                            | None \<Rightarrow> if risk = high then freeze_card
                                       else if risk = medium then open_dispute
                                       else false_positive);
          confidence = (case score_of riskSignals of
                          Some score \<Rightarrow>
                            Some (if fallbackUsed st then min (of_int score * (7 / 10)) 70
                                  else of_int score)
                        | None \<Rightarrow> None)
      in \<lparr>tr_risk = risk,
          tr_reasons = (case reasons_of riskSignals of Some rs \<Rightarrow> rs | None \<Rightarrow> []),
          tr_proposedAction = proposedAction,
          tr_confidence = confidence,
          tr_citations = (case citations_of kbResults of Some cs \<Rightarrow> cs | None \<Rightarrow> []),
          tr_fallbackUsed = fallbackUsed st,
          tr_traces = traces st\<rparr>)"

text \<open>
  \<open>execute\<close>: the result of a completed run, or the error of a run that could not
  create or save its record; and the circuit breakers afterwards.
\<close>

definition new_orch :: "breakers \<Rightarrow> orch" where
  "new_orch bs = \<lparr>traces = [], fallbackUsed = False, run_context = (\<lambda>k. None), circuitBreakers = bs\<rparr>"

definition final_state :: "agents \<Rightarrow> breakers \<Rightarrow> orch" where
  "final_state env bs = run_plan env buildPlan 0 (new_orch bs)"

definition execute :: "agents \<Rightarrow> breakers \<Rightarrow> (string + TriageResult) \<times> breakers" where
  "execute env bs =
     (if \<not> ag_createRun env then (Inl ''triageRun.create failed'', bs)
      else
        let st = final_state env bs;
            result = generateDecision st
        in if \<not> ag_saveResults env then (Inl ''saveResults failed'', circuitBreakers st)
           else (Inr result, circuitBreakers st))"

text \<open>
  Two conditions on the orchestrator, for stating what a run leaves behind: no failed
  trace of a critical step; and no result of the \<open>proposeAction\<close> step.
\<close>

definition no_critical_failure :: "orch \<Rightarrow> bool" where
  "no_critical_failure st = list_all (\<lambda>t. ok t \<or> \<not> isStepCritical (step t)) (traces st)"

definition no_proposal :: "orch \<Rightarrow> bool" where
  "no_proposal st =
     (run_context st ''proposeAction'' = None
      \<and> list_all (\<lambda>t. \<not> (step t = ''proposeAction'' \<and> ok t)) (traces st))"


text \<open>
  A third condition: the run stopped at a critical step. Such a run leaves a failed
  trace of the step, or, when the step's breaker was open and no trace was written,
  only the generic fallback object as the step's entry of the context.
\<close>

definition stopped_at_critical_step :: "orch \<Rightarrow> bool" where
  "stopped_at_critical_step st =
     (list_ex (\<lambda>t. \<not> ok t \<and> isStepCritical (step t)) (traces st)
      \<or> run_context st ''getProfile'' = Some VFallback
      \<or> run_context st ''recentTx'' = Some VFallback)"
subsection \<open>Example runs\<close>

text \<open>
  Agents that all succeed, for a customer with no recent transactions: the fraud agent
  reports a score of 90 and proposes to freeze the card, and the compliance agent
  settles on opening a dispute.
\<close>

definition agents_ok :: agents where
  "agents_ok =
     \<lparr>ag_getProfile = Returns (Some \<lparr>cust_id = ''cust_1'', cust_kycLevel = ''verified''\<rparr>),
      ag_recentTx = Returns [],
      ag_riskSignals = Returns \<lparr>rs_score = 90, rs_reasons = [''Transaction from new device''],
                                rs_action = Some fa_freeze_card\<rparr>,
      ag_kbLookup = (\<lambda>reasons. Returns \<lparr>results = [], citations = []\<rparr>),
      ag_decide = (\<lambda>c. Returns
         \<lparr>ia_summary = [],
          ia_riskAssessment = \<lparr>ra_level = high, ra_confidence = 85, ra_keyFactors = []\<rparr>,
          ia_recommendations = [],
          ia_customerProfile =
            \<lparr>riskTier = low, transactionPattern = regular, historicalIncidents = 0\<rparr>\<rparr>),
      ag_proposeAction = (\<lambda>c. Returns
         \<lparr>cr_action = open_dispute, cr_approved = True, cr_requiresOTP = True,
          cr_blockedBy = None\<rparr>),
      ag_clock = (\<lambda>i. 1000),
      ag_createRun = True,
      ag_saveResults = True\<rparr>"

text \<open>The same agents, except that the fraud agent exceeds its deadline.\<close>

definition agents_risk_timeout :: agents where
  "agents_risk_timeout =
     agents_ok\<lparr>ag_riskSignals := Throws ''Step riskSignals timeout after 1000ms''\<rparr>"

text \<open>The same agents, except that the profile query fails.\<close>

definition agents_profile_error :: agents where
  "agents_profile_error = agents_ok\<lparr>ag_getProfile := Throws ''Connection refused''\<rparr>"

text \<open>No breaker yet; and the breaker of the fraud agent open since time 0.\<close>

definition no_breakers :: breakers where
  "no_breakers = (\<lambda>k. None)"

definition risk_breaker_open :: breakers where
  "risk_breaker_open =
     no_breakers(''riskSignals'' := Some \<lparr>failures = 3, lastFailure = 0, isOpen = True\<rparr>)"


text \<open>
  Agents whose compliance agent reads the context: it follows the fraud agent's
  recommendation to freeze the card, proposes to contact the customer for any other
  risk signals, and fails when the context has none.
\<close>

definition agents_follow_fraud :: agents where
  "agents_follow_fraud =
     agents_ok\<lparr>ag_proposeAction := (\<lambda>c.
        case c ''riskSignals'' of
          Some (VRisk rs) \<Rightarrow>
            Returns \<lparr>cr_action = (if rs_action rs = Some fa_freeze_card then freeze_card
                                   else contact_customer),
                     cr_approved = True, cr_requiresOTP = True, cr_blockedBy = None\<rparr>
        | _ \<Rightarrow> Throws ''Compliance validation failed'')\<rparr>"

text \<open>The breaker of the profile query open since time 0.\<close>

definition profile_breaker_open :: breakers where
  "profile_breaker_open =
     no_breakers(''getProfile'' := Some \<lparr>failures = 3, lastFailure = 0, isOpen = True\<rparr>)"
section \<open>Action executor\<close>

text \<open>
  The rows of the database that the action routes read and write. A case gets the next
  free number as its id (the database generates a fresh id for every row). The JSON
  payload of a case event is left out. The database and the cache are taken to answer;
  the one write that fails on the data itself, the update of an alert that does not
  exist, is modelled.
\<close>

record card_row =
  card_customerId :: string
  card_status :: string

record alert_row =
  alert_id :: string
  alert_suspectTxnId :: string
  alert_status :: string

record case_row =
  case_id :: nat
  case_customerId :: string
  case_txnId :: "string option"
  case_type :: string
  case_status :: string
  case_reasonCode :: string

record case_event =
  ev_caseId :: nat
  ev_actor :: string
  ev_action :: string

record txn_row =
  txn_customerId :: string
  txn_amountCents :: int
  txn_merchant :: string

text \<open>A response: the status code and the JSON object of the body, field by field.\<close>

datatype jv = JStr string | JNum int | JBool bool

record response =
  http_status :: nat
  body :: "(string \<times> jv) list"

text \<open>
  The store: the tables, and the cache of idempotency results, each with the time in
  milliseconds at which it expires.
\<close>

record store =
  cards :: "string \<Rightarrow> card_row option"
  alerts :: "alert_row list"
  cases :: "case_row list"
  caseEvents :: "case_event list"
  txn_table :: "string \<Rightarrow> txn_row option"
  cache :: "string \<Rightarrow> ((string \<times> jv) list \<times> int) option"

definition cache_get :: "store \<Rightarrow> int \<Rightarrow> string \<Rightarrow> (string \<times> jv) list option" where
  "cache_get s now key =
     (case cache s key of
        None \<Rightarrow> None
      | Some (v, expiresAt) \<Rightarrow> if now \<le> expiresAt then Some v else None)"

definition cache_setex :: "store \<Rightarrow> int \<Rightarrow> string \<Rightarrow> int \<Rightarrow> (string \<times> jv) list \<Rightarrow> store" where
  "cache_setex s now key seconds v = s\<lparr>cache := (cache s)(key := Some (v, now + seconds * 1000))\<rparr>"

definition update_alert :: "string \<Rightarrow> string \<Rightarrow> alert_row list \<Rightarrow> alert_row list" where
  "update_alert aid status als =
     map (\<lambda>a. if alert_id a = aid then a\<lparr>alert_status := status\<rparr> else a) als"

definition alert_exists :: "string \<Rightarrow> alert_row list \<Rightarrow> bool" where
  "alert_exists aid als = list_ex (\<lambda>a. alert_id a = aid) als"

definition create_case :: "store \<Rightarrow> string \<Rightarrow> string option \<Rightarrow> string \<Rightarrow> string \<Rightarrow> string \<Rightarrow> nat \<times> store" where
  "create_case s customerId txnId ty status reasonCode =
     (let cid = length (cases s)
      in (cid, s\<lparr>cases := cases s @ [\<lparr>case_id = cid, case_customerId = customerId,
                     case_txnId = txnId, case_type = ty, case_status = status,
                     case_reasonCode = reasonCode\<rparr>]\<rparr>))"

definition create_event :: "store \<Rightarrow> nat \<Rightarrow> string \<Rightarrow> string \<Rightarrow> store" where
  "create_event s cid actor act =
     s\<lparr>caseEvents := caseEvents s @ [\<lparr>ev_caseId = cid, ev_actor = actor, ev_action = act\<rparr>]\<rparr>"

text \<open>
  A request: the \<open>Idempotency-Key\<close> header (empty when absent), the fields of the body,
  the user, the identifier that \<open>uuidv4()\<close> returns for the request, and the
  reading of the clock. An optional field of the body that is absent is \<open>None\<close>.
  The routes test \<open>alertId\<close>, \<open>customerId\<close> and \<open>suspectTxnId\<close> for
  truthiness only, so an empty string in one of them is \<open>None\<close> as well; an
  \<open>otp\<close> that is present is \<open>Some\<close> of its characters, also when it is empty,
  and the validation then measures its length.
\<close>

record request =
  idempotencyKey :: string
  rq_cardId :: string
  rq_otp :: "string option"
  rq_alertId :: "string option"
  rq_customerId :: "string option"
  rq_suspectTxnId :: "string option"
  rq_txnId :: string
  rq_reasonCode :: string
  rq_userId :: string
  rq_userRole :: string
  rq_uuid :: string
  rq_now :: int

definition generateOTP :: string where
  "generateOTP = ''123456''"

definition verifyOTP :: "string \<Rightarrow> string \<Rightarrow> bool" where
  "verifyOTP cardId providedOTP = (let storedOTP = ''123456'' in storedOTP = providedOTP)"

definition json :: "(string \<times> jv) list \<Rightarrow> response" where
  "json b = \<lparr>http_status = 200, body = b\<rparr>"

definition error_response :: "nat \<Rightarrow> string \<Rightarrow> response" where
  "error_response code msg = \<lparr>http_status = code, body = [(''error'', JStr msg)]\<rparr>"

text \<open>The validation chains of the two routes that have one.\<close>

definition freezeCardValidation :: "request \<Rightarrow> bool" where
  "freezeCardValidation rq =
     (rq_cardId rq \<noteq> [] \<and> (case rq_otp rq of Some code \<Rightarrow> length code = 6 | None \<Rightarrow> True))"

definition openDisputeValidation :: "request \<Rightarrow> bool" where
  "openDisputeValidation rq = (rq_txnId rq \<noteq> [] \<and> rq_reasonCode rq \<noteq> [])"

definition contact_customer_route :: "store \<Rightarrow> request \<Rightarrow> response \<times> store" where
  "contact_customer_route s rq =
     (case (rq_alertId rq, rq_customerId rq) of
        (Some alertId, Some customerId) \<Rightarrow>
          (case create_case s customerId (rq_suspectTxnId rq) ''CONTACT_CUSTOMER'' ''CLOSED''
                  ''CUSTOMER_CONTACTED'' of
             (cid, s1) \<Rightarrow>
               let s2 = create_event s1 cid (rq_userId rq) ''CUSTOMER_CONTACTED'';
                   s3 = s2\<lparr>alerts := update_alert alertId ''CONTACTED'' (alerts s2)\<rparr>
               in (json [(''success'', JBool True),
                         (''message'', JStr ''Customer contact initiated and logged''),
                         (''requestId'', JStr (rq_uuid rq)),
                         (''caseId'', JNum (int cid))], s3))
      | _ \<Rightarrow> (error_response 400 ''alertId and customerId are required'', s))"

definition mark_false_positive_route :: "store \<Rightarrow> request \<Rightarrow> response \<times> store" where
  "mark_false_positive_route s rq =
     (case (rq_alertId rq, rq_customerId rq) of
        (Some alertId, Some customerId) \<Rightarrow>
          (case find (\<lambda>a. alert_id a = alertId) (alerts s) of
             None \<Rightarrow> (error_response 404 ''Alert not found'', s)
           | Some alert \<Rightarrow>
               (case create_case s customerId
                       (case rq_suspectTxnId rq of Some t \<Rightarrow> Some t
                        | None \<Rightarrow> Some (alert_suspectTxnId alert))
                       ''FALSE_POSITIVE'' ''CLOSED_FALSE_POSITIVE'' ''AI_FALSE_POSITIVE'' of
                  (cid, s1) \<Rightarrow>
                    let s2 = create_event s1 cid (rq_userId rq) ''CLOSED_FALSE_POSITIVE'';
                        s3 = s2\<lparr>alerts := update_alert alertId ''CLOSED_FALSE_POSITIVE'' (alerts s2)\<rparr>
                    in (json [(''status'', JStr ''CLOSED_FALSE_POSITIVE''),
                              (''caseId'', JNum (int cid)),
                              (''message'', JStr ''Alert closed as false positive.'')], s3)))
      | _ \<Rightarrow> (error_response 400 ''alertId and customerId are required'', s))"

definition freeze_card_route :: "store \<Rightarrow> request \<Rightarrow> response \<times> store" where
  "freeze_card_route s rq =
     (if \<not> freezeCardValidation rq
      then (error_response 400 ''validation'', s)
      else
        case (if idempotencyKey rq \<noteq> []
              then cache_get s (rq_now rq) (''idempotency:freeze:'' @ idempotencyKey rq)
              else None) of
          Some existingResult \<Rightarrow> (json existingResult, s)
        | None \<Rightarrow>
            (case cards s (rq_cardId rq) of
               None \<Rightarrow> (error_response 404 ''Card not found'', s)
             | Some crd \<Rightarrow>
                 if card_status crd = ''FROZEN'' then
                   (let result = [(''status'', JStr ''FROZEN''), (''requestId'', JStr (rq_uuid rq)),
                                  (''message'', JStr ''Card is already frozen''),
                                  (''timestamp'', JNum (rq_now rq))];
                        s1 = (if idempotencyKey rq \<noteq> []
                              then cache_setex s (rq_now rq)
                                     (''idempotency:freeze:'' @ idempotencyKey rq) 3600 result
                              else s)
                    in (json result, s1))
                 else
                   (case rq_otp rq of
                      None \<Rightarrow>
                        (json [(''status'', JStr ''PENDING_OTP''), (''requestId'', JStr (rq_uuid rq)),
                               (''message'', JStr ''OTP verification required''),
                               (''otpSent'', JBool True), (''timestamp'', JNum (rq_now rq))], s)
                    | Some otp \<Rightarrow>
                        if \<not> verifyOTP (rq_cardId rq) otp
                        then (error_response 400 ''Invalid OTP'', s)
                        else if (case rq_alertId rq of Some a \<Rightarrow> \<not> alert_exists a (alerts s)
                                 | None \<Rightarrow> False)
                        then (error_response 500 ''Failed to freeze card'', s)
                        else
                          (let s1 = s\<lparr>cards := (cards s)(rq_cardId rq :=
                                        Some (crd\<lparr>card_status := ''FROZEN''\<rparr>))\<rparr>
                           in case create_case s1 (card_customerId crd) (rq_suspectTxnId rq)
                                     ''CARD_FREEZE'' ''CLOSED'' ''FRAUD_PREVENTION'' of
                                (cid, s2) \<Rightarrow>
                                  let s3 = create_event s2 cid (rq_userId rq) ''CARD_FROZEN'';
                                      s4 = (case rq_alertId rq of
                                              Some a \<Rightarrow> s3\<lparr>alerts := update_alert a ''Resolved'' (alerts s3)\<rparr>
                                            | None \<Rightarrow> s3);
                                      result = [(''status'', JStr ''FROZEN''),
                                                (''requestId'', JStr (rq_uuid rq)),
                                                (''cardId'', JStr (rq_cardId rq)),
                                                (''message'', JStr ''Card has been successfully frozen''),
                                                (''timestamp'', JNum (rq_now rq))];
                                      s5 = (if idempotencyKey rq \<noteq> []
                                            then cache_setex s4 (rq_now rq)
                                                   (''idempotency:freeze:'' @ idempotencyKey rq) 3600 result
                                            else s4)
                                  in (json result, s5)))))"

definition open_dispute_route :: "store \<Rightarrow> request \<Rightarrow> response \<times> store" where
  "open_dispute_route s rq =
     (if \<not> openDisputeValidation rq
      then (error_response 400 ''validation'', s)
      else
        case (if idempotencyKey rq \<noteq> []
              then cache_get s (rq_now rq) (''idempotency:dispute:'' @ idempotencyKey rq)
              else None) of
          Some existingResult \<Rightarrow> (json existingResult, s)
        | None \<Rightarrow>
            (case txn_table s (rq_txnId rq) of
               None \<Rightarrow> (error_response 404 ''Transaction not found'', s)
             | Some transaction \<Rightarrow>
                 (case find (\<lambda>c. case_txnId c = Some (rq_txnId rq) \<and> case_type c = ''DISPUTE''
                                  \<and> case_status c \<in> set [''OPEN'', ''PENDING'']) (cases s) of
                    Some existingDispute \<Rightarrow>
                      (let result = [(''caseId'', JNum (int (case_id existingDispute))),
                                     (''status'', JStr ''OPEN''),
                                     (''message'', JStr ''Dispute already exists for this transaction''),
                                     (''requestId'', JStr (rq_uuid rq)),
                                     (''timestamp'', JNum (rq_now rq))];
                           s1 = (if idempotencyKey rq \<noteq> []
                                 then cache_setex s (rq_now rq)
                                        (''idempotency:dispute:'' @ idempotencyKey rq) 3600 result
                                 else s)
                       in (json result, s1))
                  | None \<Rightarrow>
                      (case create_case s (txn_customerId transaction) (Some (rq_txnId rq))
                              ''DISPUTE'' ''OPEN'' (rq_reasonCode rq) of
                         (cid, s1) \<Rightarrow>
                           let s2 = create_event s1 cid (rq_userId rq) ''DISPUTE_OPENED'';
                               s3 = (case find (\<lambda>a. alert_suspectTxnId a = rq_txnId rq) (alerts s2) of
                                       Some alert \<Rightarrow>
                                         s2\<lparr>alerts := update_alert (alert_id alert)
                                               ''Investigating(Opened the Dispute)'' (alerts s2)\<rparr>
                                     | None \<Rightarrow> s2);
                               result = [(''caseId'', JNum (int cid)), (''status'', JStr ''OPEN''),
                                         (''txnId'', JStr (rq_txnId rq)),
                                         (''reasonCode'', JStr (rq_reasonCode rq)),
                                         (''message'', JStr ''Dispute has been successfully created''),
                                         (''requestId'', JStr (rq_uuid rq)),
                                         (''timestamp'', JNum (rq_now rq))];
                               s4 = (if idempotencyKey rq \<noteq> []
                                     then cache_setex s3 (rq_now rq)
                                            (''idempotency:dispute:'' @ idempotencyKey rq) 3600 result
                                     else s3)
                           in (json result, s4)))))"

subsection \<open>Example requests\<close>

text \<open>
  A store with two active cards of one customer and an open alert; and requests of an
  agent, a second apart, that carry the same idempotency key.
\<close>

definition store0 :: store where
  "store0 =
     \<lparr>cards = (\<lambda>k. None)(''card_1'' := Some \<lparr>card_customerId = ''cust_1'', card_status = ''ACTIVE''\<rparr>,
                            ''card_2'' := Some \<lparr>card_customerId = ''cust_1'', card_status = ''ACTIVE''\<rparr>),
      alerts = [\<lparr>alert_id = ''alert_1'', alert_suspectTxnId = ''txn_1'', alert_status = ''OPEN''\<rparr>],
      cases = [],
      caseEvents = [],
      txn_table = (\<lambda>k. None)(''txn_1'' := Some \<lparr>txn_customerId = ''cust_1'',
                                   txn_amountCents = 12000, txn_merchant = ''Grocer''\<rparr>),
      cache = (\<lambda>k. None)\<rparr>"

definition request1 :: request where
  "request1 =
     \<lparr>idempotencyKey = ''key-1'', rq_cardId = ''card_1'', rq_otp = None,
      rq_alertId = Some ''alert_1'', rq_customerId = Some ''cust_1'',
      rq_suspectTxnId = Some ''txn_1'', rq_txnId = ''txn_1'', rq_reasonCode = ''10.4'',
      rq_userId = ''agent_7'', rq_userRole = ''agent'', rq_uuid = ''uuid-1'', rq_now = 1000\<rparr>"

definition request2 :: request where
  "request2 = request1\<lparr>rq_uuid := ''uuid-2'', rq_now := 2000\<rparr>"

section \<open>Redactor\<close>

subsection \<open>Regular expressions\<close>

text \<open>
  The constructs that the redactor's three patterns use: one character of a class, a
  literal character, the word boundary \<open>\b\<close>, sequence, the greedy option \<open>r?\<close>, and
  the greedy repetition \<open>[class]{lo,hi}\<close> of a class (\<open>hi = None\<close> for no upper bound).
\<close>

datatype regex =
    Class "char \<Rightarrow> bool"
  | Lit char
  | WordB
  | Seq regex regex
  | Opt regex
  | Rep "char \<Rightarrow> bool" nat "nat option"

text \<open>
  A position in the subject is the character before it (none at the start) and the
  rest of the text. \<open>rmatch r pos\<close> lists the positions at which a match of \<open>r\<close> that
  starts at \<open>pos\<close> can end, in the order in which a backtracking matcher tries them:
  the first one is the match that JavaScript reports.
\<close>

type_synonym pos = "char option \<times> string"

definition word_before :: "pos \<Rightarrow> bool" where
  "word_before p = (case fst p of None \<Rightarrow> False | Some c \<Rightarrow> is_word_char c)"

definition word_after :: "pos \<Rightarrow> bool" where
  "word_after p = (case snd p of [] \<Rightarrow> False | c # cs \<Rightarrow> is_word_char c)"

definition advance :: "nat \<Rightarrow> pos \<Rightarrow> pos" where
  "advance n p =
     (if n = 0 \<or> snd p = [] then p
      else (Some (last (take n (snd p))), drop n (snd p)))"

fun rmatch :: "regex \<Rightarrow> pos \<Rightarrow> pos list" where
  "rmatch (Class P) p =
     (case snd p of [] \<Rightarrow> [] | c # cs \<Rightarrow> if P c then [(Some c, cs)] else [])"
| "rmatch (Lit a) p =
     (case snd p of [] \<Rightarrow> [] | c # cs \<Rightarrow> if c = a then [(Some c, cs)] else [])"
| "rmatch WordB p = (if word_before p \<noteq> word_after p then [p] else [])"
| "rmatch (Seq r1 r2) p = concat (map (rmatch r2) (rmatch r1 p))"
| "rmatch (Opt r) p = rmatch r p @ [p]"
| "rmatch (Rep P lo hi) p =
     (let k = length (takeWhile P (snd p));
          kmax = (case hi of None \<Rightarrow> k | Some h \<Rightarrow> min h k)
      in map (\<lambda>n. advance n p) (rev [lo..<Suc kmax]))"

text \<open>The length of the match at a position, if there is one.\<close>

definition match_at :: "regex \<Rightarrow> pos \<Rightarrow> nat option" where
  "match_at r p =
     (case rmatch r p of [] \<Rightarrow> None | q # qs \<Rightarrow> Some (length (snd p) - length (snd q)))"

text \<open>
  \<open>test\<close> of a global expression whose \<open>lastIndex\<close> is 0: is there a match at some
  position? (In \<open>redactText\<close> every \<open>test\<close> starts at 0: a test that fails resets
  \<open>lastIndex\<close>, one that succeeds is followed by \<open>replace\<close>, which resets it; \<open>containsPII\<close>
  is never called.)
\<close>

fun search :: "regex \<Rightarrow> char option \<Rightarrow> string \<Rightarrow> bool" where
  "search r prev [] = (match_at r (prev, []) \<noteq> None)"
| "search r prev (c # cs) = (match_at r (prev, c # cs) \<noteq> None \<or> search r (Some c) cs)"

definition regex_test :: "regex \<Rightarrow> string \<Rightarrow> bool" where
  "regex_test r s = search r None s"

text \<open>
  \<open>replace\<close> with a global expression: the matches from left to right, none
  overlapping another, each replaced by what the function makes of it; after an empty
  match the search moves on by one character.
\<close>

function replace_from :: "regex \<Rightarrow> (string \<Rightarrow> string) \<Rightarrow> char option \<Rightarrow> string \<Rightarrow> string" where
  "replace_from r f prev [] =
     (case match_at r (prev, []) of None \<Rightarrow> [] | Some n \<Rightarrow> f [])"
| "replace_from r f prev (c # cs) =
     (case match_at r (prev, c # cs) of
        None \<Rightarrow> c # replace_from r f (Some c) cs
      | Some n \<Rightarrow>
          if n = 0 then f [] @ c # replace_from r f (Some c) cs
          else f (take n (c # cs))
               @ replace_from r f (Some (last (take n (c # cs)))) (drop n (c # cs)))"
  by pat_completeness auto
termination
  by (relation "measure (\<lambda>(r, f, prev, s). length s)") auto

definition replace_all :: "regex \<Rightarrow> (string \<Rightarrow> string) \<Rightarrow> string \<Rightarrow> string" where
  "replace_all r f s = replace_from r f None s"

subsection \<open>The patterns and the masking functions\<close>

definition seqs :: "regex list \<Rightarrow> regex" where
  "seqs rs = foldr Seq (butlast rs) (last rs)"

definition email_local :: "char \<Rightarrow> bool" where
  "email_local c = (is_alpha c \<or> is_digit c \<or> c \<in> set ''._%+-'')"

definition email_domain :: "char \<Rightarrow> bool" where
  "email_domain c = (is_alpha c \<or> is_digit c \<or> c \<in> set ''.-'')"

definition email_tld :: "char \<Rightarrow> bool" where
  "email_tld c = (is_alpha c \<or> c = CHR ''|'')"

definition phone_sep :: "char \<Rightarrow> bool" where
  "phone_sep c = (c \<in> set ''-.'' \<or> is_space c)"

text \<open>\<open>/\b\d{13,19}\b/g\<close>\<close>

definition PAN_PATTERN :: regex where
  "PAN_PATTERN = seqs [WordB, Rep is_digit 13 (Some 19), WordB]"

text \<open>\<open>/\b[A-Za-z0-9._%+-]+@[A-Za-z0-9.-]+\.[A-Z|a-z]{2,}\b/g\<close>\<close>

definition EMAIL_PATTERN :: regex where
  "EMAIL_PATTERN =
     seqs [WordB, Rep email_local 1 None, Lit CHR ''@'', Rep email_domain 1 None,
           Lit CHR ''.'', Rep email_tld 2 None, WordB]"

text \<open>\<open>/(\+?1[-.\s]?)?\(?([0-9]{3})\)?[-.\s]?([0-9]{3})[-.\s]?([0-9]{4})/g\<close>\<close>

definition PHONE_PATTERN :: regex where
  "PHONE_PATTERN =
     seqs [Opt (seqs [Opt (Lit CHR ''+''), Lit CHR ''1'', Opt (Class phone_sep)]),
           Opt (Lit CHR ''(''), Rep is_digit 3 (Some 3), Opt (Lit CHR '')''),
           Opt (Class phone_sep), Rep is_digit 3 (Some 3),
           Opt (Class phone_sep), Rep is_digit 4 (Some 4)]"

text \<open>\<open>split('@')\<close>: the pieces between the separators.\<close>

fun split_at_acc :: "char \<Rightarrow> string \<Rightarrow> string \<Rightarrow> string list" where
  "split_at_acc sep cur [] = [cur]"
| "split_at_acc sep cur (c # cs) =
     (if c = sep then cur # split_at_acc sep [] cs else split_at_acc sep (cur @ [c]) cs)"

definition mask_email :: "string \<Rightarrow> string" where
  "mask_email m =
     (case split_at_acc CHR ''@'' [] m of
        [local, domain] \<Rightarrow>
          (if local \<noteq> [] \<and> length local > 2 then take 2 local @ ''***'' else ''***'')
          @ ''@'' @ domain
      | _ \<Rightarrow> ''***@***.***'')"

text \<open>\<open>redactText\<close>: the cleaned text, and whether anything was masked.\<close>

definition redactText :: "string \<Rightarrow> string \<times> bool" where
  "redactText t =
     (if t = [] then (t, False)
      else
        let (c1, m1) = (if regex_test PAN_PATTERN t
                        then (replace_all PAN_PATTERN (\<lambda>m. ''****REDACTED****'') t, True)
                        else (t, False));
            (c2, m2) = (if regex_test EMAIL_PATTERN c1
                        then (replace_all EMAIL_PATTERN mask_email c1, True)
                        else (c1, m1));
            (c3, m3) = (if regex_test PHONE_PATTERN c2
                        then (replace_all PHONE_PATTERN (\<lambda>m. ''***-***-****'') c2, True)
                        else (c2, m2))
        in (c3, m3))"

text \<open>
  The values that \<open>redactObject\<close> walks through: null, booleans, numbers, strings,
  arrays, and objects with their own enumerable properties in order.
\<close>

datatype jsval =
    JNull
  | JBoolean bool
  | JNumber rat
  | JString string
  | JArray "jsval list"
  | JObject "(string \<times> jsval) list"

primrec redactObject :: "jsval \<Rightarrow> jsval \<times> bool" where
  "redactObject JNull = (JNull, False)"
| "redactObject (JBoolean b) = (JBoolean b, False)"
| "redactObject (JNumber n) = (JNumber n, False)"
| "redactObject (JString t) = (JString (fst (redactText t)), snd (redactText t))"
| "redactObject (JArray vs) =
     (JArray (map fst (map redactObject vs)), list_ex snd (map redactObject vs))"
| "redactObject (JObject kvs) =
     (JObject (map (\<lambda>kv. (fst kv, fst (snd kv))) (map (map_prod id redactObject) kvs)),
      list_ex (\<lambda>kv. snd (snd kv)) (map (map_prod id redactObject) kvs))"

definition maskCustomerId :: "string \<Rightarrow> string" where
  "maskCustomerId customerId =
     (if customerId = [] \<or> length customerId < 8 then ''***masked***''
      else take 4 customerId @ ''***'' @ drop (length customerId - 2) customerId)"

subsection \<open>Match lengths\<close>

text \<open>
  For an expression without word boundaries a match does not depend on the character
  before it: \<open>mlens r s\<close> lists the lengths of the matches of \<open>r\<close> at the start of \<open>s\<close>,
  in the matcher's order. \<open>minlen r\<close> is the length of the shortest text that \<open>r\<close> can
  match.
\<close>

fun wb_free :: "regex \<Rightarrow> bool" where
  "wb_free (Class P) = True"
| "wb_free (Lit a) = True"
| "wb_free WordB = False"
| "wb_free (Seq r1 r2) = (wb_free r1 \<and> wb_free r2)"
| "wb_free (Opt r) = wb_free r"
| "wb_free (Rep P lo hi) = True"

fun mlens :: "regex \<Rightarrow> string \<Rightarrow> nat list" where
  "mlens (Class P) s = (case s of [] \<Rightarrow> [] | c # cs \<Rightarrow> if P c then [1] else [])"
| "mlens (Lit a) s = (case s of [] \<Rightarrow> [] | c # cs \<Rightarrow> if c = a then [1] else [])"
| "mlens WordB s = [0]"
| "mlens (Seq r1 r2) s = concat (map (\<lambda>n. map ((+) n) (mlens r2 (drop n s))) (mlens r1 s))"
| "mlens (Opt r) s = mlens r s @ [0]"
| "mlens (Rep P lo hi) s =
     (let k = length (takeWhile P s);
          kmax = (case hi of None \<Rightarrow> k | Some h \<Rightarrow> min h k)
      in rev [lo..<Suc kmax])"

fun minlen :: "regex \<Rightarrow> nat" where
  "minlen (Class P) = 1"
| "minlen (Lit a) = 1"
| "minlen WordB = 0"
| "minlen (Seq r1 r2) = minlen r1 + minlen r2"
| "minlen (Opt r) = 0"
| "minlen (Rep P lo hi) = lo"

text \<open>The classes and literals of an expression, as predicates on a character.\<close>

fun classes :: "regex \<Rightarrow> (char \<Rightarrow> bool) list" where
  "classes (Class P) = [P]"
| "classes (Lit a) = [\<lambda>c. c = a]"
| "classes WordB = []"
| "classes (Seq r1 r2) = classes r1 @ classes r2"
| "classes (Opt r) = classes r"
| "classes (Rep P lo hi) = [P]"

text \<open>The strings that \<open>redactObject\<close> visits in a value.\<close>

primrec strings_of :: "jsval \<Rightarrow> string list" where
  "strings_of JNull = []"
| "strings_of (JBoolean b) = []"
| "strings_of (JNumber n) = []"
| "strings_of (JString t) = [t]"
| "strings_of (JArray vs) = concat (map strings_of vs)"
| "strings_of (JObject kvs) = concat (map snd (map (map_prod id strings_of) kvs))"

section \<open>The composite risk score\<close>

lemma analyzeMerchant_riskScore_nonneg:
  "0 \<le> ma_riskScore (analyzeMerchant transactions suspectTxn)"
  by (simp add: analyzeMerchant_def Let_def)

lemma calculateRiskScore_sum:
  "calculateRiskScore v device m patterns suspectTxn =
     min (js_round (sum_list (spec_contributions v device m patterns suspectTxn))) 100"
proof -
  have acc: "\<And>c (s::rat) k. (if c then s + k else s) = s + (if c then k else 0)"
    by simp
  show ?thesis
    unfolding calculateRiskScore_def spec_contributions_def Let_def acc
    by (simp add: mult.commute add.assoc split del: if_split cong: if_cong)
qed

lemma spec_contributions_nonneg:
  assumes "0 \<le> ma_riskScore m"
  shows "0 \<le> sum_list (spec_contributions v device m patterns suspectTxn)"
  using assms by (simp add: spec_contributions_def)

text \<open>
  C7, as the code has it. For every history and suspect transaction, and whatever the
  velocity, device and pattern analyses report, the composite score is the sum of the
  listed contributions (with the merchant analysis of that history and transaction),
  rounded to the nearest integer (a half rounded up) and then capped at 100; it lies
  between 0 and 100.
\<close>

theorem C7_score_rounded_sum_capped:
  "calculateRiskScore v device (analyzeMerchant transactions suspectTxn) patterns suspectTxn
     = min (js_round (sum_list
         (spec_contributions v device (analyzeMerchant transactions suspectTxn) patterns suspectTxn))) 100
   \<and> 0 \<le> calculateRiskScore v device (analyzeMerchant transactions suspectTxn) patterns suspectTxn
   \<and> calculateRiskScore v device (analyzeMerchant transactions suspectTxn) patterns suspectTxn \<le> 100"
proof -
  let ?m = "analyzeMerchant transactions suspectTxn"
  let ?sum = "sum_list (spec_contributions v device ?m patterns suspectTxn)"
  have eq: "calculateRiskScore v device ?m patterns suspectTxn = min (js_round ?sum) 100"
    by (rule calculateRiskScore_sum)
  have "0 \<le> ?sum"
    by (rule spec_contributions_nonneg) (rule analyzeMerchant_riskScore_nonneg)
  then have "0 \<le> js_round ?sum"
    by (simp add: js_round_def)
  with eq show ?thesis by simp
qed

text \<open>
  The claim as the spec words it fails where the halved merchant score leaves a half:
  a first transaction at a new, otherwise unremarkable merchant sums to 7.5, and the
  code returns 8.
\<close>

theorem C7_counterexample:
  "of_int (calculateRiskScore
      \<lparr>txnsLast24h = 0, amountLast24h = 0, avgDaily = 0\<rparr>
      \<lparr>newDevice = False, deviceChanges = 0\<rparr>
      (analyzeMerchant [] \<lparr>amountCents = 1000, merchant = ''Grocer'', mcc = ''5411''\<rparr>)
      \<lparr>unusualTime = False, unusualLocation = False, velocitySpike = False\<rparr>
      \<lparr>amountCents = 1000, merchant = ''Grocer'', mcc = ''5411''\<rparr>)
   \<noteq> spec_composite_score
      \<lparr>txnsLast24h = 0, amountLast24h = 0, avgDaily = 0\<rparr>
      \<lparr>newDevice = False, deviceChanges = 0\<rparr>
      (analyzeMerchant [] \<lparr>amountCents = 1000, merchant = ''Grocer'', mcc = ''5411''\<rparr>)
      \<lparr>unusualTime = False, unusualLocation = False, velocitySpike = False\<rparr>
      \<lparr>amountCents = 1000, merchant = ''Grocer'', mcc = ''5411''\<rparr>"
  by (simp add: calculateRiskScore_def spec_composite_score_def spec_contributions_def
      analyzeMerchant_def suspiciousPatterns_def highRiskMCCs_def toLowerCase_def
      lower_char_def js_round_def Let_def)

section \<open>Knowledge-base results and snippets\<close>















section \<open>Confidence of the Decide agent\<close>

lemma analyzeCustomerProfile_incidents:
  "historicalIncidents (analyzeCustomerProfile transactions) = 0"
  by (simp add: analyzeCustomerProfile_def Let_def)

text \<open>
  C10. For every context (risk signals and recent transactions) the Decide agent's
  confidence lies between 80 and 95: \<open>historicalIncidents\<close> is the constant 0, so the
  base 70 always receives the +10 bonus.
\<close>

theorem C10_confidence_range:
  "80 \<le> ra_confidence (insights_riskAssessment riskSignals transactions)
   \<and> ra_confidence (insights_riskAssessment riskSignals transactions) \<le> 95"
  by (simp add: insights_riskAssessment_def generateRiskAssessment_def Let_def
      analyzeCustomerProfile_incidents)

section \<open>The rate limiter's window\<close>

lemma ceil_window: "W \<le> js_ceil (of_int W / 1000) * 1000"
proof -
  have h: "(of_int W :: rat) / 1000 \<le> of_int \<lceil>(of_int W :: rat) / 1000\<rceil>"
    by (rule le_of_int_ceiling)
  have "(of_int W :: rat) \<le> of_int \<lceil>(of_int W :: rat) / 1000\<rceil> * 1000"
    using h by linarith
  then have "(of_int W :: rat) \<le> of_int (\<lceil>(of_int W :: rat) / 1000\<rceil> * 1000)"
    by simp
  then show ?thesis
    unfolding js_ceil_def by (simp only: of_int_le_iff)
qed

lemma ceil_pos: "0 < W \<Longrightarrow> 0 < js_ceil (of_int W / 1000)"
  by (simp add: js_ceil_def)

lemma ceil_mono: "a \<le> b \<Longrightarrow> js_ceil (of_int a / 1000) \<le> js_ceil (of_int b / 1000)"
  by (simp add: js_ceil_def ceiling_mono divide_right_mono)

lemma step_in_window:
  assumes "0 < W" "in_window r cid c R" "R - W \<le> t" "t \<le> R"
  shows "rateLimitMiddleware W N cid t True r =
           (if c + 1 > N then Status429 (js_ceil (of_int (R - t) / 1000)) else Next,
            r(''rate_limit:'' @ cid :=
                Some (\<lparr>rl_count = c + 1, resetTime = R\<rparr>, t + js_ceil (of_int W / 1000) * 1000)))"
  using assms ceil_pos[of W]
  by (auto simp: rateLimitMiddleware_def in_window_def redis_get_def redis_setex_def Let_def)

lemma step_keeps_window:
  assumes "R - W \<le> t"
  shows "in_window
     (r(''rate_limit:'' @ cid :=
          Some (\<lparr>rl_count = c, resetTime = R\<rparr>, t + js_ceil (of_int W / 1000) * 1000))) cid c R"
  using assms ceil_window[of W] by (simp add: in_window_def)

lemma step_window_closed:
  assumes "0 < W" "window_closed r cid t"
  shows "rateLimitMiddleware W N cid t True r =
           (if 1 > N then Status429 (js_ceil (of_int W / 1000)) else Next,
            r(''rate_limit:'' @ cid :=
                Some (\<lparr>rl_count = 1, resetTime = t + W\<rparr>, t + js_ceil (of_int W / 1000) * 1000)))"
  using assms ceil_pos[of W]
  by (auto simp: rateLimitMiddleware_def window_closed_def redis_setex_def Let_def
      split: option.splits)

lemma serve_length: "length (serve W N cid r ts) = length ts"
  by (induction ts arbitrary: r) (auto split: prod.splits)

lemma serve_in_window:
  assumes "0 < W" "in_window r cid c R" "\<forall>t\<in>set ts. R - W \<le> t \<and> t \<le> R" "i < length ts"
  shows "serve W N cid r ts ! i =
     (if c + int i + 1 > N then Status429 (js_ceil (of_int (R - ts ! i) / 1000)) else Next)"
  using assms
proof (induction ts arbitrary: r c i)
  case Nil
  then show ?case by simp
next
  case (Cons t ts)
  let ?r' = "r(''rate_limit:'' @ cid :=
      Some (\<lparr>rl_count = c + 1, resetTime = R\<rparr>, t + js_ceil (of_int W / 1000) * 1000))"
  have t: "R - W \<le> t" "t \<le> R"
    using Cons.prems(3) by auto
  have st: "rateLimitMiddleware W N cid t True r =
      (if c + 1 > N then Status429 (js_ceil (of_int (R - t) / 1000)) else Next, ?r')"
    using Cons.prems(1,2) t by (rule step_in_window)
  have win: "in_window ?r' cid (c + 1) R"
    using t(1) by (rule step_keeps_window)
  show ?case
  proof (cases i)
    case 0
    then show ?thesis by (simp add: st)
  next
    case (Suc j)
    have rest: "\<forall>t\<in>set ts. R - W \<le> t \<and> t \<le> R"
      using Cons.prems(3) by simp
    have j: "j < length ts"
      using Cons.prems(4) Suc by simp
    have "serve W N cid ?r' ts ! j =
      (if (c + 1) + int j + 1 > N then Status429 (js_ceil (of_int (R - ts ! j) / 1000)) else Next)"
      using Cons.prems(1) win rest j by (rule Cons.IH)
    then show ?thesis
      using Suc by (simp add: st add.commute add.left_commute)
  qed
qed

lemma js_ceil_div: "js_ceil (of_int a / 1000) = - ((- a) div 1000)"
  using ceiling_divide_eq_div[of a 1000, where ?'a = rat] by (simp add: js_ceil_def)

text \<open>
  C8, as the code has it. For a window of \<open>W\<close> milliseconds and a limit of \<open>N\<close>
  requests (both positive): when a client's window is closed at time \<open>t0\<close>, the
  request at \<open>t0\<close> resets the counter to 1 with reset time \<open>t0 + W\<close> and passes;
  of \<open>N\<close> further requests of the client up to the reset time the first \<open>N - 1\<close>
  pass too, so that the \<open>N\<close>-th request of the window passes, and the
  \<open>(N+1)\<close>-th is answered 429 with \<open>retryAfter\<close> at most \<open>W / 1000\<close> rounded up
  to whole seconds. When the store's calls throw, the request passes and the store
  is left as it was.
\<close>

theorem C8_rate_limit_window:
  assumes W: "0 < W" and N: "0 < N"
    and closed: "window_closed r cid t0"
    and len: "int (length later) = N"
    and times: "\<forall>t\<in>set later. t0 \<le> t \<and> t \<le> t0 + W"
  shows "(\<exists>retryAfter. serve W N cid r (t0 # later) = replicate (nat N) Next @ [Status429 retryAfter]
            \<and> retryAfter \<le> js_ceil (of_int W / 1000))
       \<and> (\<exists>E. rateLimitMiddleware W N cid t0 True r =
              (Next, r(''rate_limit:'' @ cid := Some (\<lparr>rl_count = 1, resetTime = t0 + W\<rparr>, E))))
       \<and> rateLimitMiddleware W N cid t False r = (Next, r)"
proof -
  let ?E = "t0 + js_ceil (of_int W / 1000) * 1000"
  let ?r1 = "r(''rate_limit:'' @ cid := Some (\<lparr>rl_count = 1, resetTime = t0 + W\<rparr>, ?E))"
  have first: "rateLimitMiddleware W N cid t0 True r = (Next, ?r1)"
    using step_window_closed[OF W closed, of N] N by simp
  have win: "in_window ?r1 cid 1 (t0 + W)"
    by (rule step_keeps_window) simp
  have times': "\<forall>t\<in>set later. (t0 + W) - W \<le> t \<and> t \<le> t0 + W"
    using times by simp
  have nth: "serve W N cid ?r1 later ! i =
      (if 1 + int i + 1 > N then Status429 (js_ceil (of_int (t0 + W - later ! i) / 1000)) else Next)"
    if "i < length later" for i
    using W win times' that by (rule serve_in_window)
  define n where "n = length later - 1"
  have later_len: "length later = Suc n" "nat N = Suc n" "N = int n + 1"
    using len N by (auto simp: n_def)
  define ra where "ra = js_ceil (of_int (t0 + W - later ! n) / 1000)"
  have "later ! n \<in> set later"
    using later_len by simp
  then have "t0 \<le> later ! n"
    using times by blast
  then have ra_le: "ra \<le> js_ceil (of_int W / 1000)"
    unfolding ra_def by (intro ceil_mono) simp
  have "serve W N cid ?r1 later = replicate n Next @ [Status429 ra]"
  proof (rule nth_equalityI)
    show "length (serve W N cid ?r1 later) = length (replicate n Next @ [Status429 ra])"
      by (simp add: serve_length later_len)
  next
    fix i assume "i < length (serve W N cid ?r1 later)"
    then have i: "i < Suc n"
      by (simp add: serve_length later_len)
    then have "i < length later" by (simp add: later_len)
    from nth[OF this] i
    show "serve W N cid ?r1 later ! i = (replicate n Next @ [Status429 ra]) ! i"
      by (cases "i = n") (auto simp: nth_append later_len ra_def)
  qed
  then have "serve W N cid r (t0 # later) = replicate (nat N) Next @ [Status429 ra]"
    by (simp add: first later_len(2))
  with ra_le have A: "\<exists>retryAfter. serve W N cid r (t0 # later) = replicate (nat N) Next @ [Status429 retryAfter]
            \<and> retryAfter \<le> js_ceil (of_int W / 1000)"
    by blast
  have B: "\<exists>E. rateLimitMiddleware W N cid t0 True r =
              (Next, r(''rate_limit:'' @ cid := Some (\<lparr>rl_count = 1, resetTime = t0 + W\<rparr>, E)))"
    using first by blast
  have C: "rateLimitMiddleware W N cid t False r = (Next, r)"
    by (simp add: rateLimitMiddleware_def)
  from A B C show ?thesis by blast
qed

text \<open>A minute's window with limit 2: requests at 0, 10 and 20 milliseconds.\<close>

theorem C8_witness:
  "window_closed (\<lambda>k. None) ''10.0.0.7'' 0
   \<and> (\<exists>retryAfter. serve 60000 2 ''10.0.0.7'' (\<lambda>k. None) [0, 10, 20] = [Next, Next, Status429 retryAfter]
         \<and> retryAfter \<le> 60)"
proof -
  have c: "window_closed (\<lambda>k. None) ''10.0.0.7'' 0"
    by (simp add: window_closed_def redis_get_def)
  have "js_ceil (of_int 60000 / 1000) = 60"
    by (simp add: js_ceil_def)
  with C8_rate_limit_window[of 60000 2 "\<lambda>k. None" "''10.0.0.7''" 0 "[10, 20]", OF _ _ c]
  show ?thesis using c by (simp add: numeral_2_eq_2)
qed

text \<open>
  The bound \<open>retryAfter \<le> W / 1000\<close> itself fails when \<open>W\<close> is not a whole number
  of seconds: with a window of 1500 milliseconds and limit 1, the second request at
  the same instant is told to retry after 2 seconds.
\<close>

theorem C8_counterexample:
  "serve 1500 1 ''10.0.0.7'' (\<lambda>k. None) [0, 0] = [Next, Status429 2]
   \<and> \<not> ((2::rat) \<le> 1500 / 1000)"
proof -
  have c: "js_ceil (of_int 1500 / 1000) = 2"
    unfolding js_ceil_div by simp
  show ?thesis
    using c by (simp add: rateLimitMiddleware_def redis_get_def redis_setex_def Let_def)
qed

section \<open>Runs of the orchestrator\<close>

lemmas orch_eval = final_state_def buildPlan_def new_orch_def executeStep_def isCircuitOpen_def
  run_agent_def resetCircuitBreaker_def recordFailure_def triggerFallback_def isStepCritical_def
  generateDecision_def score_of_def action_of_def reasons_of_def citations_of_def
  context_reasons_def no_breakers_def risk_breaker_open_def agents_ok_def
  agents_risk_timeout_def agents_profile_error_def execute_def Let_def

lemma executeStep_fallbackUsed: "fallbackUsed (snd (executeStep env s i st)) = fallbackUsed st"
  by (auto simp: executeStep_def split: prod.splits outcome.splits bool.splits)

lemma executeStep_traces:
  "traces (snd (executeStep env s i st)) = traces st
   \<or> (\<exists>b. traces (snd (executeStep env s i st)) = traces st @ [\<lparr>seq = i, step = s, ok = b\<rparr>]
          \<and> b = fst (executeStep env s i st))"
  by (auto simp: executeStep_def split: prod.splits outcome.splits bool.splits)

lemma executeStep_failed_traces:
  "\<not> fst (executeStep env s i st) \<Longrightarrow>
     traces (snd (executeStep env s i st)) = traces st
     \<or> traces (snd (executeStep env s i st)) = traces st @ [\<lparr>seq = i, step = s, ok = False\<rparr>]"
  using executeStep_traces[of env s i st] by auto

lemma critical_fallback_value:
  "isStepCritical s \<Longrightarrow> run_context (triggerFallback s st) s = Some VFallback"
  by (auto simp: triggerFallback_def isStepCritical_def Let_def)

lemma triggerFallback_fields:
  "fallbackUsed (triggerFallback s st)" "traces (triggerFallback s st) = traces st"
  by (simp_all add: triggerFallback_def Let_def)

lemma run_plan_critical_failure:
  assumes "no_critical_failure st"
  shows "list_all (\<lambda>t. \<not> ok t \<and> isStepCritical (step t) \<longrightarrow>
            fallbackUsed (run_plan env plan i st)
            \<and> run_context (run_plan env plan i st) (step t) = Some VFallback)
          (traces (run_plan env plan i st))"
  using assms
proof (induction plan arbitrary: i st)
  case Nil
  then show ?case by (auto simp: no_critical_failure_def list_all_iff)
next
  case (Cons s plan)
  obtain success st1 where ex: "executeStep env s i st = (success, st1)"
    by (cases "executeStep env s i st")
  show ?case
  proof (cases "\<not> success \<and> isStepCritical s")
    case True
    then have fin: "run_plan env (s # plan) i st = triggerFallback s st1"
      using ex by simp
    have "traces st1 = traces st \<or> traces st1 = traces st @ [\<lparr>seq = i, step = s, ok = False\<rparr>]"
      using executeStep_failed_traces[of env s i st] ex True by simp
    then show ?thesis
      using Cons.prems True unfolding fin
      by (auto simp: no_critical_failure_def list_all_iff triggerFallback_fields critical_fallback_value)
  next
    case False
    then have fin: "run_plan env (s # plan) i st = run_plan env plan (Suc i) st1"
      using ex by auto
    have "traces st1 = traces st \<or> (\<exists>b. traces st1 = traces st @ [\<lparr>seq = i, step = s, ok = b\<rparr>] \<and> b = success)"
      using executeStep_traces[of env s i st] ex by simp
    then have "no_critical_failure st1"
      using Cons.prems False by (auto simp: no_critical_failure_def)
    then show ?thesis
      unfolding fin by (rule Cons.IH)
  qed
qed

lemma run_plan_all_ok:
  assumes "\<not> fallbackUsed st"
  shows "length (traces (run_plan env plan i st)) \<le> length (traces st) + length plan
     \<and> (fallbackUsed (run_plan env plan i st) \<longrightarrow>
          \<not> list_all ok (traces (run_plan env plan i st))
          \<or> length (traces (run_plan env plan i st)) < length (traces st) + length plan)"
  using assms
proof (induction plan arbitrary: i st)
  case Nil
  then show ?case by simp
next
  case (Cons s plan)
  obtain success st1 where ex: "executeStep env s i st = (success, st1)"
    by (cases "executeStep env s i st")
  have fb1: "\<not> fallbackUsed st1"
    using executeStep_fallbackUsed[of env s i st] ex Cons.prems by simp
  show ?case
  proof (cases "\<not> success \<and> isStepCritical s")
    case True
    then have fin: "run_plan env (s # plan) i st = triggerFallback s st1"
      using ex by simp
    have "traces st1 = traces st \<or> traces st1 = traces st @ [\<lparr>seq = i, step = s, ok = False\<rparr>]"
      using executeStep_failed_traces[of env s i st] ex True by simp
    then show ?thesis
      unfolding fin by (auto simp: triggerFallback_fields)
  next
    case False
    then have fin: "run_plan env (s # plan) i st = run_plan env plan (Suc i) st1"
      using ex by auto
    have tr: "traces st1 = traces st \<or> (\<exists>b. traces st1 = traces st @ [\<lparr>seq = i, step = s, ok = b\<rparr>])"
      using executeStep_traces[of env s i st] ex by auto
    then have "length (traces st1) \<le> length (traces st) + 1"
      by auto
    then show ?thesis
      unfolding fin using Cons.IH[OF fb1, of "Suc i"] by auto
  qed
qed

text \<open>
  C1, as the code has it. For every run: a failed trace of a critical step
  (\<open>getProfile\<close>, \<open>recentTx\<close>) means that \<open>fallbackUsed\<close> is true and that the
  step's entry of the context is its fallback result; a run whose six steps all left a
  successful trace has \<open>fallbackUsed\<close> false; the result carries the flag as it is.
  Whenever the orchestrator triggers the fallback of a step it sets the flag and puts
  the step's deterministic fallback result into the context: score 50 with the reason
  \<open>risk_analysis_unavailable\<close> and no action for \<open>riskSignals\<close>, no results and
  the citation of a manual review for \<open>kbLookup\<close>, the generic fallback object for
  any other step.
\<close>

theorem C1_fallback_on_critical_failure:
  "list_all (\<lambda>t. \<not> ok t \<and> isStepCritical (step t) \<longrightarrow>
        fallbackUsed (final_state env bs)
        \<and> run_context (final_state env bs) (step t) = Some VFallback)
     (traces (final_state env bs))
   \<and> (length (traces (final_state env bs)) = 6 \<and> list_all ok (traces (final_state env bs)) \<longrightarrow>
        \<not> fallbackUsed (final_state env bs))
   \<and> tr_fallbackUsed (generateDecision (final_state env bs)) = fallbackUsed (final_state env bs)
   \<and> fallbackUsed (triggerFallback s st)
   \<and> run_context (triggerFallback s st) s =
        Some (if s = ''riskSignals''
              then VRisk \<lparr>rs_score = 50, rs_reasons = [''risk_analysis_unavailable''], rs_action = None\<rparr>
              else if s = ''kbLookup''
              then VKb \<lparr>results = [], citations = [''Fallback: Manual review recommended'']\<rparr>
              else VFallback)"
proof -
  have init: "no_critical_failure (new_orch bs)" "\<not> fallbackUsed (new_orch bs)" "traces (new_orch bs) = []"
    by (simp_all add: no_critical_failure_def new_orch_def)
  have A: "list_all (\<lambda>t. \<not> ok t \<and> isStepCritical (step t) \<longrightarrow>
        fallbackUsed (final_state env bs)
        \<and> run_context (final_state env bs) (step t) = Some VFallback)
     (traces (final_state env bs))"
    unfolding final_state_def using init(1) by (rule run_plan_critical_failure)
  have B: "length (traces (final_state env bs)) = 6 \<and> list_all ok (traces (final_state env bs)) \<longrightarrow>
        \<not> fallbackUsed (final_state env bs)"
    using run_plan_all_ok[OF init(2), of env buildPlan 0]
    unfolding final_state_def by (auto simp: init(3) buildPlan_def)
  have C: "tr_fallbackUsed (generateDecision (final_state env bs)) = fallbackUsed (final_state env bs)"
    by (simp add: generateDecision_def Let_def)
  have D: "fallbackUsed (triggerFallback s st)"
    by (simp add: triggerFallback_def Let_def)
  have E: "run_context (triggerFallback s st) s =
        Some (if s = ''riskSignals''
              then VRisk \<lparr>rs_score = 50, rs_reasons = [''risk_analysis_unavailable''], rs_action = None\<rparr>
              else if s = ''kbLookup''
              then VKb \<lparr>results = [], citations = [''Fallback: Manual review recommended'']\<rparr>
              else VFallback)"
    by (simp add: triggerFallback_def Let_def)
  from A B C D E show ?thesis by blast
qed

text \<open>
  The run that stops at the failed profile query, and the run whose agents all succeed.
\<close>

theorem C1_witness:
  "list_all (\<lambda>t. \<not> ok t \<and> isStepCritical (step t))
      (traces (final_state agents_profile_error no_breakers))
   \<and> traces (final_state agents_profile_error no_breakers)
      = [\<lparr>seq = 0, step = ''getProfile'', ok = False\<rparr>]
   \<and> fallbackUsed (final_state agents_profile_error no_breakers)
   \<and> run_context (final_state agents_profile_error no_breakers) ''getProfile'' = Some VFallback
   \<and> length (traces (final_state agents_ok no_breakers)) = 6
   \<and> list_all ok (traces (final_state agents_ok no_breakers))
   \<and> \<not> fallbackUsed (final_state agents_ok no_breakers)"
  using C1_fallback_on_critical_failure[of agents_profile_error no_breakers]
        C1_fallback_on_critical_failure[of agents_ok no_breakers]
  by (simp add: orch_eval)

text \<open>
  The equivalence of the claim fails at the failed profile query: \<open>fallbackUsed\<close> is
  true although no step that is not critical has failed.
\<close>

theorem C1_counterexample:
  "tr_fallbackUsed (generateDecision (final_state agents_profile_error no_breakers))
   \<noteq> list_ex (\<lambda>t. \<not> ok t \<and> \<not> isStepCritical (step t))
        (tr_traces (generateDecision (final_state agents_profile_error no_breakers)))"
  by (simp add: orch_eval)

text \<open>
  A failure of a step that is not critical is recorded in its trace and nothing else:
  when the fraud agent exceeds its deadline, the run goes on without a
  \<open>riskSignals\<close> entry in the context, and the decision is composed from the default
  score of 30 with \<open>fallbackUsed\<close> false.
\<close>

lemma risk_timeout_run:
  "fst (execute agents_risk_timeout no_breakers) =
     Inr \<lparr>tr_risk = low, tr_reasons = [], tr_proposedAction = open_dispute,
          tr_confidence = Some 30, tr_citations = [], tr_fallbackUsed = False,
          tr_traces = [\<lparr>seq = 0, step = ''getProfile'', ok = True\<rparr>,
                       \<lparr>seq = 1, step = ''recentTx'', ok = True\<rparr>,
                       \<lparr>seq = 2, step = ''riskSignals'', ok = False\<rparr>,
                       \<lparr>seq = 3, step = ''kbLookup'', ok = True\<rparr>,
                       \<lparr>seq = 4, step = ''decide'', ok = True\<rparr>,
                       \<lparr>seq = 5, step = ''proposeAction'', ok = True\<rparr>]\<rparr>
   \<and> run_context (final_state agents_risk_timeout no_breakers) ''riskSignals'' = None"
  by (simp add: orch_eval)

text \<open>
  In every run the seq values of the traces increase strictly and stay below 6, so
  there are no duplicates; whether they are contiguous depends on the breakers.
\<close>

lemma run_plan_seq_increasing:
  assumes "sorted_wrt (<) (map seq (traces st))" "list_all (\<lambda>t. seq t < i) (traces st)"
  shows "sorted_wrt (<) (map seq (traces (run_plan env plan i st)))
     \<and> list_all (\<lambda>t. seq t < i + length plan) (traces (run_plan env plan i st))"
  using assms
proof (induction plan arbitrary: i st)
  case Nil
  then show ?case by simp
next
  case (Cons s plan)
  obtain success st1 where ex: "executeStep env s i st = (success, st1)"
    by (cases "executeStep env s i st")
  have tr: "traces st1 = traces st \<or> (\<exists>b. traces st1 = traces st @ [\<lparr>seq = i, step = s, ok = b\<rparr>])"
    using executeStep_traces[of env s i st] ex by auto
  have s1: "sorted_wrt (<) (map seq (traces st1))"
    using tr Cons.prems by (auto simp: sorted_wrt_append list_all_iff)
  have b1: "list_all (\<lambda>t. seq t < Suc i) (traces st1)"
    using tr Cons.prems by (auto simp: list_all_iff less_SucI)
  show ?case
  proof (cases "\<not> success \<and> isStepCritical s")
    case True
    then have "run_plan env (s # plan) i st = triggerFallback s st1"
      using ex by simp
    then show ?thesis
      using s1 b1 by (auto simp: triggerFallback_fields list_all_iff)
  next
    case False
    then have "run_plan env (s # plan) i st = run_plan env plan (Suc i) st1"
      using ex by auto
    then show ?thesis
      using Cons.IH[OF s1 b1] by simp
  qed
qed

lemma final_state_seq_increasing:
  "sorted_wrt (<) (map seq (traces (final_state env bs)))
   \<and> list_all (\<lambda>t. seq t < 6) (traces (final_state env bs))"
proof -
  have init: "sorted_wrt (<) (map seq (traces (new_orch bs)))"
    "list_all (\<lambda>t. seq t < 0) (traces (new_orch bs))"
    by (simp_all add: new_orch_def)
  have len: "0 + length buildPlan = 6"
    by (simp add: buildPlan_def)
  show ?thesis
    using run_plan_seq_increasing[OF init, of env buildPlan]
    unfolding final_state_def len .
qed

text \<open>
  C2 at a run that meets an open breaker. The breaker of \<open>riskSignals\<close> has been open
  for one second; every agent would succeed. The step is skipped without a trace, and
  the run's traces carry the seq values 0, 1, 3, 4, 5.
\<close>

theorem C2_open_breaker_leaves_gap:
  "map seq (traces (final_state agents_ok risk_breaker_open)) = [0, 1, 3, 4, 5]
   \<and> map seq (tr_traces (generateDecision (final_state agents_ok risk_breaker_open)))
      = [0, 1, 3, 4, 5]
   \<and> map ok (traces (final_state agents_ok risk_breaker_open)) = [True, True, True, True, True]"
  by (simp add: orch_eval)

lemma executeStep_keeps_no_proposal:
  assumes "s \<noteq> ''proposeAction''" "no_proposal st"
  shows "no_proposal (snd (executeStep env s i st))"
  using assms
  by (auto simp: executeStep_def isCircuitOpen_def no_proposal_def
      split: option.splits outcome.splits if_splits prod.splits)

lemma triggerFallback_keeps_no_proposal:
  assumes "s \<noteq> ''proposeAction''" "no_proposal st"
  shows "no_proposal (triggerFallback s st)"
  using assms by (simp add: triggerFallback_def no_proposal_def Let_def)

lemma proposeAction_not_critical: "\<not> isStepCritical ''proposeAction''"
  by (simp add: isStepCritical_def)

lemma executeStep_proposeAction:
  assumes "no_proposal st"
  shows "no_proposal (snd (executeStep env ''proposeAction'' i st))
     \<or> (\<exists>c. ag_proposeAction env
                ((run_context (snd (executeStep env ''proposeAction'' i st)))
                   (''proposeAction'' := None)) = Returns c
           \<and> run_context (snd (executeStep env ''proposeAction'' i st)) ''proposeAction''
               = Some (VCompliance c))"
proof (cases "fst (isCircuitOpen (ag_clock env i) ''proposeAction'' (circuitBreakers st))")
  case True
  then have "no_proposal (snd (executeStep env ''proposeAction'' i st))"
    using assms by (auto simp: executeStep_def no_proposal_def split: prod.splits)
  then show ?thesis ..
next
  case False
  have absent: "run_context st ''proposeAction'' = None"
    using assms by (simp add: no_proposal_def)
  show ?thesis
  proof (cases "ag_proposeAction env (run_context st)")
    case (Returns c)
    then have ctx: "run_context (snd (executeStep env ''proposeAction'' i st))
          = (run_context st)(''proposeAction'' := Some (VCompliance c))"
      using False by (auto simp: executeStep_def run_agent_def split: prod.splits)
    have "(run_context (snd (executeStep env ''proposeAction'' i st)))(''proposeAction'' := None)
          = run_context st"
      unfolding ctx using absent by (simp add: fun_upd_idem)
    then have "ag_proposeAction env
          ((run_context (snd (executeStep env ''proposeAction'' i st)))(''proposeAction'' := None))
          = Returns c"
      using Returns by simp
    moreover have "run_context (snd (executeStep env ''proposeAction'' i st)) ''proposeAction''
          = Some (VCompliance c)"
      unfolding ctx by simp
    ultimately show ?thesis by blast
  next
    case (Throws e)
    then have "no_proposal (snd (executeStep env ''proposeAction'' i st))"
      using False assms
      by (auto simp: executeStep_def run_agent_def no_proposal_def split: prod.splits)
    then show ?thesis ..
  qed
qed

lemma run_plan_proposal:
  assumes "''proposeAction'' \<notin> set pre" "no_proposal st"
  shows "no_proposal (run_plan env (pre @ [''proposeAction'']) i st)
     \<or> (\<exists>c. ag_proposeAction env
                ((run_context (run_plan env (pre @ [''proposeAction'']) i st))
                   (''proposeAction'' := None)) = Returns c
           \<and> run_context (run_plan env (pre @ [''proposeAction'']) i st) ''proposeAction''
               = Some (VCompliance c))"
  using assms
proof (induction pre arbitrary: i st)
  case Nil
  have eq: "run_plan env [''proposeAction''] i st = snd (executeStep env ''proposeAction'' i st)"
    by (simp add: proposeAction_not_critical split: prod.splits)
  show ?case
    unfolding append_Nil eq by (rule executeStep_proposeAction[OF Nil.prems(2)])
next
  case (Cons s pre)
  have s: "s \<noteq> ''proposeAction''" and pre: "''proposeAction'' \<notin> set pre"
    using Cons.prems(1) by auto
  obtain success st1 where ex: "executeStep env s i st = (success, st1)"
    by (cases "executeStep env s i st")
  have st1: "no_proposal st1"
    using executeStep_keeps_no_proposal[OF s Cons.prems(2), of env i] ex by simp
  show ?case
  proof (cases "\<not> success \<and> isStepCritical s")
    case True
    then have "run_plan env ((s # pre) @ [''proposeAction'']) i st = triggerFallback s st1"
      using ex by simp
    then show ?thesis
      using triggerFallback_keeps_no_proposal[OF s st1] by simp
  next
    case False
    then have "run_plan env ((s # pre) @ [''proposeAction'']) i st
        = run_plan env (pre @ [''proposeAction'']) (Suc i) st1"
      using ex by auto
    then show ?thesis
      using Cons.IH[OF pre st1, of "Suc i"] by simp
  qed
qed

lemma generateDecision_compliance:
  "run_context st ''proposeAction'' = Some (VCompliance c) \<Longrightarrow>
   tr_proposedAction (generateDecision st) = cr_action c"
  by (simp add: generateDecision_def action_of_def Let_def)

lemma final_state_proposal:
  "no_proposal (final_state env bs)
     \<or> (\<exists>c. ag_proposeAction env
                ((run_context (final_state env bs))(''proposeAction'' := None)) = Returns c
           \<and> run_context (final_state env bs) ''proposeAction'' = Some (VCompliance c))"
proof -
  define pre where
    "pre = [''getProfile'', ''recentTx'', ''riskSignals'', ''kbLookup'', ''decide'']"
  have plan: "buildPlan = pre @ [''proposeAction'']"
    by (simp add: buildPlan_def pre_def)
  have init: "no_proposal (new_orch bs)"
    by (simp add: no_proposal_def new_orch_def)
  have notin: "''proposeAction'' \<notin> set pre"
    by (simp add: pre_def)
  show ?thesis
    using run_plan_proposal[OF notin init, of env 0]
    unfolding final_state_def plan .
qed

text \<open>
  A run that stops at a critical step: the steps behind the critical ones have left no
  entry in the context.
\<close>

lemma executeStep_context_frame:
  "k \<noteq> s \<Longrightarrow> run_context (snd (executeStep env s i st)) k = run_context st k"
  by (auto simp: executeStep_def split: prod.splits outcome.splits bool.splits)

lemma triggerFallback_context_frame:
  "k \<noteq> s \<Longrightarrow> run_context (triggerFallback s st) k = run_context st k"
  by (simp add: triggerFallback_def Let_def)

lemma run_agent_not_fallback: "run_agent env s c \<noteq> Returns VFallback"
  by (auto simp: run_agent_def split: outcome.splits)

lemma executeStep_context_not_fallback:
  "run_context st k \<noteq> Some VFallback \<Longrightarrow>
   run_context (snd (executeStep env s i st)) k \<noteq> Some VFallback"
  using run_agent_not_fallback[of env s "run_context st"]
  by (auto simp: executeStep_def split: prod.splits outcome.splits bool.splits if_splits)

lemma executeStep_keeps_running:
  assumes "fst (executeStep env s i st) \<or> \<not> isStepCritical s" "\<not> stopped_at_critical_step st"
  shows "\<not> stopped_at_critical_step (snd (executeStep env s i st))"
proof -
  have "traces (snd (executeStep env s i st)) = traces st
     \<or> (\<exists>b. traces (snd (executeStep env s i st)) = traces st @ [\<lparr>seq = i, step = s, ok = b\<rparr>]
          \<and> b = fst (executeStep env s i st))"
    by (rule executeStep_traces)
  then have "\<not> list_ex (\<lambda>t. \<not> ok t \<and> isStepCritical (step t)) (traces (snd (executeStep env s i st)))"
    using assms by (auto simp: stopped_at_critical_step_def)
  moreover have "run_context (snd (executeStep env s i st)) ''getProfile'' \<noteq> Some VFallback"
    "run_context (snd (executeStep env s i st)) ''recentTx'' \<noteq> Some VFallback"
    using assms(2) by (auto simp: stopped_at_critical_step_def intro!: executeStep_context_not_fallback)
  ultimately show ?thesis
    by (simp add: stopped_at_critical_step_def)
qed

lemma run_plan_keeps_running:
  assumes "\<forall>s\<in>set rest. \<not> isStepCritical s" "\<not> stopped_at_critical_step st"
  shows "\<not> stopped_at_critical_step (run_plan env rest i st)"
  using assms
proof (induction rest arbitrary: i st)
  case Nil
  then show ?case by simp
next
  case (Cons s rest)
  have s: "\<not> isStepCritical s" and rest: "\<forall>s\<in>set rest. \<not> isStepCritical s"
    using Cons.prems(1) by auto
  obtain success st1 where ex: "executeStep env s i st = (success, st1)"
    by (cases "executeStep env s i st")
  have "\<not> stopped_at_critical_step st1"
    using executeStep_keeps_running[of env s i st] s Cons.prems(2) ex by simp
  then have "\<not> stopped_at_critical_step (run_plan env rest (Suc i) st1)"
    by (rule Cons.IH[OF rest])
  then show ?case
    using ex s by simp
qed

lemma run_plan_stopped:
  assumes "\<forall>s\<in>set crit. isStepCritical s" "\<forall>s\<in>set rest. \<not> isStepCritical s"
    "\<not> stopped_at_critical_step st" "\<forall>k\<in>set rest. run_context st k = None"
  shows "stopped_at_critical_step (run_plan env (crit @ rest) i st) \<longrightarrow>
           (\<forall>k\<in>set rest. run_context (run_plan env (crit @ rest) i st) k = None)"
  using assms
proof (induction crit arbitrary: i st)
  case Nil
  then show ?case
    using run_plan_keeps_running[of rest st env i] by simp
next
  case (Cons s crit)
  have s: "isStepCritical s" and crit: "\<forall>s\<in>set crit. isStepCritical s"
    using Cons.prems(1) by auto
  have notin: "k \<noteq> s" if "k \<in> set rest" for k
    using that s Cons.prems(2) by auto
  obtain success st1 where ex: "executeStep env s i st = (success, st1)"
    by (cases "executeStep env s i st")
  have ctx1: "\<forall>k\<in>set rest. run_context st1 k = None"
    using executeStep_context_frame[of _ s env i st] notin Cons.prems(4) ex by simp
  show ?case
  proof (cases success)
    case False
    then have "run_plan env ((s # crit) @ rest) i st = triggerFallback s st1"
      using ex s by simp
    then show ?thesis
      using ctx1 notin by (simp add: triggerFallback_context_frame)
  next
    case True
    then have fin: "run_plan env ((s # crit) @ rest) i st = run_plan env (crit @ rest) (Suc i) st1"
      using ex by simp
    have "\<not> stopped_at_critical_step st1"
      using executeStep_keeps_running[of env s i st] True Cons.prems(3) ex by simp
    then show ?thesis
      unfolding fin using Cons.IH[OF crit Cons.prems(2) _ ctx1] by simp
  qed
qed

lemma final_state_stopped:
  assumes "stopped_at_critical_step (final_state env bs)"
  shows "run_context (final_state env bs) ''riskSignals'' = None"
    "run_context (final_state env bs) ''kbLookup'' = None"
    "run_context (final_state env bs) ''proposeAction'' = None"
proof -
  define crit where "crit = [''getProfile'', ''recentTx'']"
  define rest where "rest = [''riskSignals'', ''kbLookup'', ''decide'', ''proposeAction'']"
  have plan: "buildPlan = crit @ rest"
    by (simp add: buildPlan_def crit_def rest_def)
  have c: "\<forall>s\<in>set crit. isStepCritical s"
    by (simp add: crit_def isStepCritical_def)
  have r: "\<forall>s\<in>set rest. \<not> isStepCritical s"
    by (simp add: rest_def isStepCritical_def)
  have init: "\<not> stopped_at_critical_step (new_orch bs)"
    by (simp add: stopped_at_critical_step_def new_orch_def)
  have ctx0: "\<forall>k\<in>set rest. run_context (new_orch bs) k = None"
    by (simp add: new_orch_def)
  have all: "\<forall>k\<in>set rest. run_context (final_state env bs) k = None"
    using run_plan_stopped[OF c r init ctx0, of env 0] assms
    unfolding final_state_def plan by simp
  show "run_context (final_state env bs) ''riskSignals'' = None"
    "run_context (final_state env bs) ''kbLookup'' = None"
    "run_context (final_state env bs) ''proposeAction'' = None"
    using all by (simp_all add: rest_def)
qed

lemma generateDecision_defaults:
  assumes "run_context st ''riskSignals'' = None" "run_context st ''proposeAction'' = None"
  shows "tr_risk (generateDecision st) = low"
    "tr_proposedAction (generateDecision st) = contact_customer"
  using assms by (simp_all add: generateDecision_def score_of_def action_of_def Let_def)

text \<open>
  C3, as the code has it. In the final decision of a run the proposed action is the
  action of the \<open>proposeAction\<close> step when that step left a successful trace: the
  entry of the context under \<open>proposeAction\<close> is then the result that the compliance
  agent returned on the context the step read (the final context without the step's
  own entry), and the proposed action is the action of that result. When the run
  stopped at a critical step (\<open>getProfile\<close>, \<open>recentTx\<close>), the context has no
  entry under \<open>proposeAction\<close> and none under \<open>riskSignals\<close>; the composition takes
  its defaults, so the risk is low and the proposed action is \<open>contact_customer\<close>.
\<close>

theorem C3_proposed_action:
  "(list_ex (\<lambda>t. step t = ''proposeAction'' \<and> ok t) (traces (final_state env bs)) \<longrightarrow>
      (\<exists>c. run_context (final_state env bs) ''proposeAction'' = Some (VCompliance c)
         \<and> ag_proposeAction env
              ((run_context (final_state env bs))(''proposeAction'' := None)) = Returns c
         \<and> tr_proposedAction (generateDecision (final_state env bs)) = cr_action c))
   \<and> (stopped_at_critical_step (final_state env bs) \<longrightarrow>
         run_context (final_state env bs) ''proposeAction'' = None
         \<and> tr_risk (generateDecision (final_state env bs)) = low
         \<and> tr_proposedAction (generateDecision (final_state env bs)) = contact_customer)"
proof -
  let ?st = "final_state env bs"
  have A: "\<exists>c. run_context ?st ''proposeAction'' = Some (VCompliance c)
         \<and> ag_proposeAction env ((run_context ?st)(''proposeAction'' := None)) = Returns c
         \<and> tr_proposedAction (generateDecision ?st) = cr_action c"
    if "list_ex (\<lambda>t. step t = ''proposeAction'' \<and> ok t) (traces ?st)"
  proof -
    have "\<not> no_proposal ?st"
      using that by (auto simp: no_proposal_def list_all_iff list_ex_iff)
    then obtain c where c: "ag_proposeAction env ((run_context ?st)(''proposeAction'' := None))
          = Returns c" "run_context ?st ''proposeAction'' = Some (VCompliance c)"
      using final_state_proposal[of env bs] by blast
    from c generateDecision_compliance[OF c(2)] show ?thesis by blast
  qed
  have B: "run_context ?st ''proposeAction'' = None
         \<and> tr_risk (generateDecision ?st) = low
         \<and> tr_proposedAction (generateDecision ?st) = contact_customer"
    if "stopped_at_critical_step ?st"
    using final_state_stopped[OF that] generateDecision_defaults[of ?st] by simp
  show ?thesis
    using A B by blast
qed

text \<open>
  A run whose agents all succeed, with a compliance agent that follows the fraud
  agent's recommendation in the context, proposes to freeze the card; a run that stops
  at the failed profile query, and a run that stops at the open breaker of the profile
  query without any trace, have low risk and propose \<open>contact_customer\<close>.
\<close>

theorem C3_witness:
  "list_ex (\<lambda>t. step t = ''proposeAction'' \<and> ok t)
      (traces (final_state agents_follow_fraud no_breakers))
   \<and> run_context (final_state agents_follow_fraud no_breakers) ''proposeAction''
      = Some (VCompliance \<lparr>cr_action = freeze_card, cr_approved = True, cr_requiresOTP = True,
                           cr_blockedBy = None\<rparr>)
   \<and> tr_proposedAction (generateDecision (final_state agents_follow_fraud no_breakers))
      = freeze_card
   \<and> stopped_at_critical_step (final_state agents_profile_error no_breakers)
   \<and> traces (final_state agents_profile_error no_breakers)
      = [\<lparr>seq = 0, step = ''getProfile'', ok = False\<rparr>]
   \<and> tr_risk (generateDecision (final_state agents_profile_error no_breakers)) = low
   \<and> tr_proposedAction (generateDecision (final_state agents_profile_error no_breakers))
      = contact_customer
   \<and> stopped_at_critical_step (final_state agents_ok profile_breaker_open)
   \<and> traces (final_state agents_ok profile_breaker_open) = []
   \<and> tr_risk (generateDecision (final_state agents_ok profile_breaker_open)) = low
   \<and> tr_proposedAction (generateDecision (final_state agents_ok profile_breaker_open))
      = contact_customer"
  using C3_proposed_action[of agents_follow_fraud no_breakers]
        C3_proposed_action[of agents_profile_error no_breakers]
        C3_proposed_action[of agents_ok profile_breaker_open]
  by (simp add: orch_eval agents_follow_fraud_def profile_breaker_open_def
      stopped_at_critical_step_def)

text \<open>
  The claim's last sentence fails: when the profile query fails, the run stops after
  one failed trace, the risk is low, and the proposed action is \<open>contact_customer\<close>,
  not \<open>false_positive\<close>.
\<close>

theorem C3_counterexample:
  "fst (execute agents_profile_error no_breakers) =
     Inr \<lparr>tr_risk = low, tr_reasons = [], tr_proposedAction = contact_customer,
          tr_confidence = Some 21, tr_citations = [], tr_fallbackUsed = True,
          tr_traces = [\<lparr>seq = 0, step = ''getProfile'', ok = False\<rparr>]\<rparr>
   \<and> tr_proposedAction (generateDecision (final_state agents_profile_error no_breakers))
      \<noteq> false_positive"
  by (simp add: orch_eval)


section \<open>Replays of actions\<close>

lemma cache_get_setex:
  "t \<le> now + seconds * 1000 \<Longrightarrow> cache_get (cache_setex s now key seconds v) t key = Some v"
  by (simp add: cache_get_def cache_setex_def)

lemma freeze_replay:
  assumes "freezeCardValidation rq" "idempotencyKey rq \<noteq> []"
    "cache_get s (rq_now rq) (''idempotency:freeze:'' @ idempotencyKey rq) = Some v"
  shows "freeze_card_route s rq = (json v, s)"
  using assms by (simp add: freeze_card_route_def)

lemma dispute_replay:
  assumes "openDisputeValidation rq" "idempotencyKey rq \<noteq> []"
    "cache_get s (rq_now rq) (''idempotency:dispute:'' @ idempotencyKey rq) = Some v"
  shows "open_dispute_route s rq = (json v, s)"
  using assms by (simp add: open_dispute_route_def)

lemma freeze_stores:
  assumes "idempotencyKey rq \<noteq> []"
    "cache_get s (rq_now rq) (''idempotency:freeze:'' @ idempotencyKey rq) = None"
    "freeze_card_route s rq = (resp, s1)" "http_status resp = 200"
    "map_of (body resp) ''status'' = Some (JStr ''FROZEN'')"
    "t \<le> rq_now rq + 3600000"
  shows "cache_get s1 t (''idempotency:freeze:'' @ idempotencyKey rq) = Some (body resp)
         \<and> resp = json (body resp)"
  using assms
  by (auto simp: freeze_card_route_def json_def error_response_def Let_def create_case_def
      create_event_def cache_get_def cache_setex_def
      split: if_splits option.splits prod.splits)

lemma dispute_stores:
  assumes "idempotencyKey rq \<noteq> []"
    "cache_get s (rq_now rq) (''idempotency:dispute:'' @ idempotencyKey rq) = None"
    "open_dispute_route s rq = (resp, s1)" "http_status resp = 200"
    "t \<le> rq_now rq + 3600000"
  shows "cache_get s1 t (''idempotency:dispute:'' @ idempotencyKey rq) = Some (body resp)
         \<and> resp = json (body resp)"
  using assms
  by (auto simp: open_dispute_route_def json_def error_response_def Let_def create_case_def
      create_event_def cache_get_def cache_setex_def
      split: if_splits option.splits prod.splits)

text \<open>
  C4, as the code has it. \<open>freeze_card\<close> and \<open>open_dispute\<close> are idempotent through
  the \<open>Idempotency-Key\<close> header once a call has completed the action: when the first
  call that carries a key answers 200 (for \<open>freeze_card\<close>: with status \<open>FROZEN\<close>),
  any valid call of the same operation that carries the same key within the hour
  returns the same response payload and leaves the store, and so the Case and
  CaseEvent rows, as they are.
\<close>

theorem C4_replay_within_ttl:
  assumes "idempotencyKey rq1 \<noteq> []" and "idempotencyKey rq2 = idempotencyKey rq1"
    and "rq_now rq2 \<le> rq_now rq1 + 3600000"
  shows "(freezeCardValidation rq2
          \<and> cache_get s (rq_now rq1) (''idempotency:freeze:'' @ idempotencyKey rq1) = None
          \<and> freeze_card_route s rq1 = (resp, s1) \<and> http_status resp = 200
          \<and> map_of (body resp) ''status'' = Some (JStr ''FROZEN'')
          \<longrightarrow> freeze_card_route s1 rq2 = (resp, s1))
       \<and> (openDisputeValidation rq2
          \<and> cache_get s (rq_now rq1) (''idempotency:dispute:'' @ idempotencyKey rq1) = None
          \<and> open_dispute_route s rq1 = (resp, s1) \<and> http_status resp = 200
          \<longrightarrow> open_dispute_route s1 rq2 = (resp, s1))"
proof (intro conjI impI)
  assume a: "freezeCardValidation rq2
          \<and> cache_get s (rq_now rq1) (''idempotency:freeze:'' @ idempotencyKey rq1) = None
          \<and> freeze_card_route s rq1 = (resp, s1) \<and> http_status resp = 200
          \<and> map_of (body resp) ''status'' = Some (JStr ''FROZEN'')"
  then have st: "cache_get s1 (rq_now rq2) (''idempotency:freeze:'' @ idempotencyKey rq1)
        = Some (body resp) \<and> resp = json (body resp)"
    using assms(1,3) by (intro freeze_stores) auto
  then have "freeze_card_route s1 rq2 = (json (body resp), s1)"
    using a assms(1,2) by (intro freeze_replay) auto
  with st show "freeze_card_route s1 rq2 = (resp, s1)"
    by simp
next
  assume a: "openDisputeValidation rq2
          \<and> cache_get s (rq_now rq1) (''idempotency:dispute:'' @ idempotencyKey rq1) = None
          \<and> open_dispute_route s rq1 = (resp, s1) \<and> http_status resp = 200"
  then have st: "cache_get s1 (rq_now rq2) (''idempotency:dispute:'' @ idempotencyKey rq1)
        = Some (body resp) \<and> resp = json (body resp)"
    using assms(1,3) by (intro dispute_stores) auto
  then have "open_dispute_route s1 rq2 = (json (body resp), s1)"
    using a assms(1,2) by (intro dispute_replay) auto
  with st show "open_dispute_route s1 rq2 = (resp, s1)"
    by simp
qed

lemmas action_eval = freeze_card_route_def open_dispute_route_def contact_customer_route_def
  mark_false_positive_route_def freezeCardValidation_def openDisputeValidation_def
  cache_get_def cache_setex_def create_case_def create_event_def update_alert_def
  alert_exists_def verifyOTP_def json_def error_response_def store0_def request1_def
  request2_def Let_def

text \<open>
  The freeze of card 1 with its one-time password under a key, replayed a second
  later; and a dispute opened and replayed.
\<close>

theorem C4_witness:
  "http_status (fst (freeze_card_route store0 (request1\<lparr>rq_otp := Some ''123456''\<rparr>))) = 200
   \<and> freeze_card_route
        (snd (freeze_card_route store0 (request1\<lparr>rq_otp := Some ''123456''\<rparr>)))
        (request2\<lparr>rq_otp := Some ''123456''\<rparr>)
      = freeze_card_route store0 (request1\<lparr>rq_otp := Some ''123456''\<rparr>)
   \<and> length (cases (snd (freeze_card_route store0 (request1\<lparr>rq_otp := Some ''123456''\<rparr>)))) = 1
   \<and> http_status (fst (open_dispute_route store0 request1)) = 200
   \<and> open_dispute_route (snd (open_dispute_route store0 request1)) request2
      = open_dispute_route store0 request1"
proof -
  let ?f1 = "request1\<lparr>rq_otp := Some ''123456''\<rparr>"
  let ?f2 = "request2\<lparr>rq_otp := Some ''123456''\<rparr>"
  have k: "idempotencyKey ?f1 \<noteq> []" "idempotencyKey ?f2 = idempotencyKey ?f1"
       "rq_now ?f2 \<le> rq_now ?f1 + 3600000"
    by (simp_all add: request1_def request2_def)
  have k': "idempotencyKey request1 \<noteq> []" "idempotencyKey request2 = idempotencyKey request1"
       "rq_now request2 \<le> rq_now request1 + 3600000"
    by (simp_all add: request1_def request2_def)
  have f: "freeze_card_route (snd (freeze_card_route store0 ?f1)) ?f2
      = freeze_card_route store0 ?f1"
    using C4_replay_within_ttl[OF k, of store0 "fst (freeze_card_route store0 ?f1)"
        "snd (freeze_card_route store0 ?f1)"]
    by (simp add: action_eval)
  have d: "open_dispute_route (snd (open_dispute_route store0 request1)) request2
      = open_dispute_route store0 request1"
    using C4_replay_within_ttl[OF k', of store0 "fst (open_dispute_route store0 request1)"
        "snd (open_dispute_route store0 request1)"]
    by (simp add: action_eval)
  have rest: "http_status (fst (freeze_card_route store0 ?f1)) = 200"
    "length (cases (snd (freeze_card_route store0 ?f1))) = 1"
    "http_status (fst (open_dispute_route store0 request1)) = 200"
    by (simp_all add: action_eval)
  from f d rest show ?thesis by simp
qed

text \<open>
  The claim fails for a freeze that waits for its one-time password: the answer
  \<open>PENDING_OTP\<close> is not stored, and the second call under the same key gets a payload
  with another request id and timestamp.
\<close>

theorem C4_counterexample:
  "fst (freeze_card_route store0 request1) =
     json [(''status'', JStr ''PENDING_OTP''), (''requestId'', JStr ''uuid-1''),
           (''message'', JStr ''OTP verification required''), (''otpSent'', JBool True),
           (''timestamp'', JNum 1000)]
   \<and> fst (freeze_card_route (snd (freeze_card_route store0 request1)) request2) =
     json [(''status'', JStr ''PENDING_OTP''), (''requestId'', JStr ''uuid-2''),
           (''message'', JStr ''OTP verification required''), (''otpSent'', JBool True),
           (''timestamp'', JNum 2000)]
   \<and> fst (freeze_card_route (snd (freeze_card_route store0 request1)) request2)
       \<noteq> fst (freeze_card_route store0 request1)"
  by (simp add: action_eval)

text \<open>
  The routes \<open>contact-customer\<close> and \<open>mark-false-positive\<close> do not read the
  header: the same request a second later creates a second case and a second event,
  and answers with the new case's id.
\<close>

lemma contact_customer_twice:
  "map case_id (cases (snd (contact_customer_route
       (snd (contact_customer_route store0 request1)) request2))) = [0, 1]
   \<and> length (caseEvents (snd (contact_customer_route
       (snd (contact_customer_route store0 request1)) request2))) = 2
   \<and> map_of (body (fst (contact_customer_route store0 request1))) ''caseId'' = Some (JNum 0)
   \<and> map_of (body (fst (contact_customer_route
       (snd (contact_customer_route store0 request1)) request2))) ''caseId'' = Some (JNum 1)"
  by (simp add: action_eval)

lemma mark_false_positive_twice:
  "map case_id (cases (snd (mark_false_positive_route
       (snd (mark_false_positive_route store0 request1)) request2))) = [0, 1]
   \<and> length (caseEvents (snd (mark_false_positive_route
       (snd (mark_false_positive_route store0 request1)) request2))) = 2
   \<and> map_of (body (fst (mark_false_positive_route store0 request1))) ''caseId'' = Some (JNum 0)
   \<and> map_of (body (fst (mark_false_positive_route
       (snd (mark_false_positive_route store0 request1)) request2))) ''caseId'' = Some (JNum 1)"
  by (simp add: action_eval)

text \<open>
  C5 at two freezes. No one-time password has been issued or stored for either card
  (the cache is empty); the code 123456 freezes card 1, and the same code, used again,
  freezes card 2.
\<close>

theorem C5_otp_reused:
  "cache store0 = (\<lambda>k. None)
   \<and> verifyOTP ''card_1'' ''123456'' \<and> verifyOTP ''card_2'' ''123456''
   \<and> map_of (body (fst (freeze_card_route store0
        (request1\<lparr>idempotencyKey := [], rq_otp := Some ''123456''\<rparr>)))) ''status''
      = Some (JStr ''FROZEN'')
   \<and> map_of (body (fst (freeze_card_route
        (snd (freeze_card_route store0 (request1\<lparr>idempotencyKey := [], rq_otp := Some ''123456''\<rparr>)))
        (request2\<lparr>idempotencyKey := [], rq_cardId := ''card_2'', rq_otp := Some ''123456''\<rparr>))))
        ''status''
      = Some (JStr ''FROZEN'')
   \<and> map (\<lambda>c. card_status (the (cards (snd (freeze_card_route
        (snd (freeze_card_route store0 (request1\<lparr>idempotencyKey := [], rq_otp := Some ''123456''\<rparr>)))
        (request2\<lparr>idempotencyKey := [], rq_cardId := ''card_2'', rq_otp := Some ''123456''\<rparr>))) c)))
        [''card_1'', ''card_2'']
      = [''FROZEN'', ''FROZEN'']"
  by (simp add: action_eval)

section \<open>Redaction applied twice\<close>

subsection \<open>Matches of expressions without word boundaries\<close>

lemma advance_0: "advance 0 p = p"
  by (simp add: advance_def)

lemma snd_advance: "snd (advance n (p, s)) = drop n s"
  by (simp add: advance_def)

lemma advance_advance:
  "advance m (advance n (p, s)) = advance (n + m) (p, s)"
proof (cases "n = 0 \<or> s = []")
  case True
  then show ?thesis by (auto simp: advance_def)
next
  case False
  show ?thesis
  proof (cases "m = 0 \<or> drop n s = []")
    case True
    then show ?thesis
      using False by (auto simp: advance_def)
  next
    case False2: False
    then have "last (take m (drop n s)) = last (take (n + m) s)"
      by (metis (no_types, lifting) append_take_drop_id last_appendR take_add take_eq_Nil)
    then show ?thesis
      using False False2 by (auto simp: advance_def add.commute)
  qed
qed

lemma mlens_le: "n \<in> set (mlens r s) \<Longrightarrow> n \<le> length s"
proof (induction r arbitrary: n s)
  case (Seq r1 r2)
  then obtain n1 n2 where n: "n1 \<in> set (mlens r1 s)" "n2 \<in> set (mlens r2 (drop n1 s))" "n = n1 + n2"
    by auto
  then have "n1 \<le> length s" "n2 \<le> length s - n1"
    using Seq.IH(1)[of n1 s] Seq.IH(2)[of n2 "drop n1 s"] by auto
  then show ?case using n(3) by simp
next
  case (Rep P lo hi)
  have "length (takeWhile P s) \<le> length s"
    by (rule length_takeWhile_le)
  then show ?case
    using Rep by (auto simp: Let_def split: option.splits)
qed (auto split: list.splits if_splits)

lemma rmatch_mlens:
  "wb_free r \<Longrightarrow> rmatch r (p, s) = map (\<lambda>n. advance n (p, s)) (mlens r s)"
proof (induction r arbitrary: p s)
  case (Seq r1 r2)
  have "concat (map (rmatch r2) (map (\<lambda>n. advance n (p, s)) (mlens r1 s)))
      = concat (map (\<lambda>n. map (\<lambda>m. advance (n + m) (p, s)) (mlens r2 (drop n s))) (mlens r1 s))"
  proof -
    have "rmatch r2 (advance n (p, s)) = map (\<lambda>m. advance (n + m) (p, s)) (mlens r2 (drop n s))" for n
    proof -
      obtain q where q: "advance n (p, s) = (q, drop n s)"
        by (metis snd_advance prod.collapse)
      have "rmatch r2 (q, drop n s) = map (\<lambda>m. advance m (q, drop n s)) (mlens r2 (drop n s))"
        using Seq.prems by (intro Seq.IH(2)) simp
      then show ?thesis
        by (simp add: q[symmetric] advance_advance)
    qed
    then show ?thesis by (simp add: comp_def)
  qed
  then show ?case
    using Seq.prems Seq.IH(1)[of p s] by (simp add: map_concat comp_def)
next
  case (Class P)
  then show ?case by (auto simp: advance_def split: list.splits)
next
  case (Lit a)
  then show ?case by (auto simp: advance_def split: list.splits)
next
  case (Opt r)
  then show ?case by (simp add: advance_0)
next
  case (Rep P lo hi)
  then show ?case by (simp add: Let_def)
qed simp

lemma match_at_mlens:
  "wb_free r \<Longrightarrow> match_at r (p, s) = (case mlens r s of [] \<Rightarrow> None | n # ns \<Rightarrow> Some n)"
  using mlens_le[of _ r s]
  by (auto simp: match_at_def rmatch_mlens snd_advance split: list.splits)

lemma minlen_le: "n \<in> set (mlens r s) \<Longrightarrow> minlen r \<le> n"
proof (induction r arbitrary: n s)
  case (Seq r1 r2)
  then obtain n1 n2 where n: "n1 \<in> set (mlens r1 s)" "n2 \<in> set (mlens r2 (drop n1 s))" "n = n1 + n2"
    by auto
  then show ?case
    using Seq.IH(1)[of n1 s] Seq.IH(2)[of n2 "drop n1 s"] by simp
qed (auto simp: Let_def split: list.splits if_splits)

lemma mlens_SeqI:
  "n1 \<in> set (mlens r1 s) \<Longrightarrow> n2 \<in> set (mlens r2 (drop n1 s)) \<Longrightarrow>
   n1 + n2 \<in> set (mlens (Seq r1 r2) s)"
  by auto

lemma take_takeWhile_all:
  assumes "n \<le> length (takeWhile P s)"
  shows "list_all P (take n s)"
proof -
  have "take n s = take n (takeWhile P s @ dropWhile P s)"
    by simp
  also have "\<dots> = take n (takeWhile P s)"
    using assms by (simp del: takeWhile_dropWhile_id)
  finally show ?thesis
    by (auto simp: list_all_iff dest: in_set_takeD set_takeWhileD)
qed

lemma mlens_prefix: "n \<in> set (mlens r s) \<Longrightarrow> n \<in> set (mlens r (take n s @ zs))"
proof (induction r arbitrary: n s zs)
  case (Seq r1 r2)
  then obtain n1 n2 where n: "n1 \<in> set (mlens r1 s)" "n2 \<in> set (mlens r2 (drop n1 s))" "n = n1 + n2"
    by auto
  have le: "n1 \<le> length s" "n2 \<le> length (drop n1 s)"
    using n mlens_le by blast+
  have a: "n1 \<in> set (mlens r1 (take n1 s @ (take n2 (drop n1 s) @ zs)))"
    using n(1) by (rule Seq.IH(1))
  have eq: "take n1 s @ (take n2 (drop n1 s) @ zs) = take n s @ zs"
    by (simp add: n(3) take_add)
  have b: "n2 \<in> set (mlens r2 (take n2 (drop n1 s) @ zs))"
    using n(2) by (rule Seq.IH(2))
  have "drop n1 (take n s @ zs) = take n2 (drop n1 s) @ zs"
    using le by (simp add: n(3) take_add)
  then have "n2 \<in> set (mlens r2 (drop n1 (take n s @ zs)))"
    using b by simp
  with a[unfolded eq] have "n1 + n2 \<in> set (mlens (Seq r1 r2) (take n s @ zs))"
    by (rule mlens_SeqI)
  then show ?case
    by (simp only: n(3))
next
  case (Rep P lo hi)
  let ?k = "length (takeWhile P s)"
  have n: "lo \<le> n" "n \<le> ?k" "case hi of None \<Rightarrow> True | Some h \<Rightarrow> n \<le> h"
    using Rep by (auto simp: Let_def split: option.splits)
  have "\<forall>c\<in>set (take n s). P c"
    using take_takeWhile_all[OF n(2)] by (simp add: list_all_iff)
  then have "takeWhile P (take n s @ zs) = take n s @ takeWhile P zs"
    by (simp add: takeWhile_append2)
  then have "n \<le> length (takeWhile P (take n s @ zs))"
    using n(2) length_takeWhile_le[of P s] by simp
  then show ?case
    using n by (auto simp: Let_def split: option.splits)
qed (auto split: list.splits if_splits)

subsection \<open>The phone and the card-number pattern\<close>

lemma mlens_OptI: "0 \<in> set (mlens (Opt r) s)"
  by simp

lemma mlens_RepI:
  "n \<le> length (takeWhile P s) \<Longrightarrow> n \<in> set (mlens (Rep P n (Some n)) s)"
  by (simp add: Let_def)

lemma takeWhile_drop_le:
  "n \<le> length (takeWhile P s) \<Longrightarrow> length (takeWhile P (drop n s)) = length (takeWhile P s) - n"
proof (induction s arbitrary: n)
  case Nil
  then show ?case by simp
next
  case (Cons c s)
  then show ?case by (cases n) (auto split: if_splits)
qed

lemma phone_wb_free: "wb_free PHONE_PATTERN"
  by (simp add: PHONE_PATTERN_def seqs_def)

lemma phone_minlen: "minlen PHONE_PATTERN = 10"
  by (simp add: PHONE_PATTERN_def seqs_def)

lemma mlens_skip:
  "n \<in> set (mlens r2 s) \<Longrightarrow> n \<in> set (mlens (Seq (Opt r1) r2) s)"
  using mlens_SeqI[OF mlens_OptI, of n r2 s r1] by simp

lemma mlens_digits_then:
  "n \<le> length (takeWhile P s) \<Longrightarrow> m \<in> set (mlens r2 (drop n s)) \<Longrightarrow>
   n + m \<in> set (mlens (Seq (Rep P n (Some n)) r2) s)"
  using mlens_SeqI[OF mlens_RepI, of n P s m r2] by simp

lemma phone_ten_digits:
  assumes "10 \<le> length (takeWhile is_digit s)"
  shows "mlens PHONE_PATTERN s \<noteq> []"
proof -
  let ?d3 = "Rep is_digit 3 (Some 3)" and ?d4 = "Rep is_digit 4 (Some 4)"
  have t0: "3 \<le> length (takeWhile is_digit s)"
    using assms by simp
  have t3: "3 \<le> length (takeWhile is_digit (drop 3 s))"
    using assms takeWhile_drop_le[of 3 is_digit s] by simp
  have t6: "4 \<le> length (takeWhile is_digit (drop 3 (drop 3 s)))"
    using assms takeWhile_drop_le[of 3 is_digit s] takeWhile_drop_le[of 3 is_digit "drop 3 s"]
    by simp
  have a4: "4 \<in> set (mlens ?d4 (drop 3 (drop 3 s)))"
    using t6 by (rule mlens_RepI)
  have a5: "4 \<in> set (mlens (Seq (Opt (Class phone_sep)) ?d4) (drop 3 (drop 3 s)))"
    using a4 by (rule mlens_skip)
  have a6: "3 + 4 \<in> set (mlens (Seq ?d3 (Seq (Opt (Class phone_sep)) ?d4)) (drop 3 s))"
    using t3 a5 by (rule mlens_digits_then)
  have a7: "3 + 4 \<in> set (mlens (Seq (Opt (Class phone_sep))
        (Seq ?d3 (Seq (Opt (Class phone_sep)) ?d4))) (drop 3 s))"
    using a6 by (rule mlens_skip)
  have a8: "3 + 4 \<in> set (mlens (Seq (Opt (Lit CHR '')''))
        (Seq (Opt (Class phone_sep)) (Seq ?d3 (Seq (Opt (Class phone_sep)) ?d4)))) (drop 3 s))"
    using a7 by (rule mlens_skip)
  have a9: "3 + (3 + 4) \<in> set (mlens (Seq ?d3 (Seq (Opt (Lit CHR '')''))
        (Seq (Opt (Class phone_sep)) (Seq ?d3 (Seq (Opt (Class phone_sep)) ?d4))))) s)"
    using t0 a8 by (rule mlens_digits_then)
  have a10: "3 + (3 + 4) \<in> set (mlens (Seq (Opt (Lit CHR ''(''))
        (Seq ?d3 (Seq (Opt (Lit CHR '')''))
        (Seq (Opt (Class phone_sep)) (Seq ?d3 (Seq (Opt (Class phone_sep)) ?d4)))))) s)"
    using a9 by (rule mlens_skip)
  have a11: "3 + (3 + 4) \<in> set (mlens (Seq (Opt (Seq (Opt (Lit CHR ''+''))
          (Seq (Lit CHR ''1'') (Opt (Class phone_sep)))))
        (Seq (Opt (Lit CHR ''(''))
        (Seq ?d3 (Seq (Opt (Lit CHR '')''))
        (Seq (Opt (Class phone_sep)) (Seq ?d3 (Seq (Opt (Class phone_sep)) ?d4))))))) s)"
    using a10 by (rule mlens_skip)
  have "PHONE_PATTERN = Seq (Opt (Seq (Opt (Lit CHR ''+''))
          (Seq (Lit CHR ''1'') (Opt (Class phone_sep)))))
        (Seq (Opt (Lit CHR ''(''))
        (Seq ?d3 (Seq (Opt (Lit CHR '')''))
        (Seq (Opt (Class phone_sep)) (Seq ?d3 (Seq (Opt (Class phone_sep)) ?d4))))))"
    by (simp add: PHONE_PATTERN_def seqs_def)
  with a11 have "3 + (3 + 4) \<in> set (mlens PHONE_PATTERN s)"
    by (simp only:)
  then show ?thesis
    by (metis empty_iff list.set(1))
qed

lemma phone_first_char:
  assumes "mlens PHONE_PATTERN (c # s) \<noteq> []"
  shows "c = CHR ''+'' \<or> c = CHR ''('' \<or> is_digit c"
proof (rule ccontr)
  assume "\<not> (c = CHR ''+'' \<or> c = CHR ''('' \<or> is_digit c)"
  then have c: "c \<noteq> CHR ''+''" "c \<noteq> CHR ''(''" "\<not> is_digit c" "c \<noteq> CHR ''1''"
    by (auto simp: is_digit_def)
  have "mlens PHONE_PATTERN (c # s) = []"
    using c by (simp add: PHONE_PATTERN_def seqs_def)
  with assms show False by simp
qed

lemma pan_digits:
  assumes "rmatch PAN_PATTERN p \<noteq> []"
  shows "13 \<le> length (takeWhile is_digit (snd p))"
proof (rule ccontr)
  assume "\<not> 13 \<le> length (takeWhile is_digit (snd p))"
  then have "rmatch PAN_PATTERN p = []"
    by (auto simp: PAN_PATTERN_def seqs_def Let_def)
  with assms show False by simp
qed

lemma matched_chars:
  "n \<in> set (mlens r s) \<Longrightarrow> list_all (\<lambda>c. list_ex (\<lambda>P. P c) (classes r)) (take n s)"
proof (induction r arbitrary: n s)
  case (Seq r1 r2)
  then obtain n1 n2 where n: "n1 \<in> set (mlens r1 s)" "n2 \<in> set (mlens r2 (drop n1 s))" "n = n1 + n2"
    by auto
  have "take n s = take n1 s @ take n2 (drop n1 s)"
    by (simp add: n(3) take_add)
  then show ?case
    using Seq.IH(1)[OF n(1)] Seq.IH(2)[OF n(2)]
    by (auto simp: list_all_iff list_ex_iff)
next
  case (Rep P lo hi)
  then have "n \<le> length (takeWhile P s)"
    by (auto simp: Let_def split: option.splits)
  then show ?case
    using take_takeWhile_all[of n P s] by (simp add: list_all_iff)
qed (auto split: list.splits if_splits)

lemma phone_no_star:
  assumes "n \<in> set (mlens PHONE_PATTERN s)"
  shows "list_all (\<lambda>c. c \<noteq> CHR ''*'') (take n s)"
proof -
  have "\<not> list_ex (\<lambda>P. P CHR ''*'') (classes PHONE_PATTERN)"
    by (simp add: PHONE_PATTERN_def seqs_def phone_sep_def is_space_def is_digit_def)
  then show ?thesis
    using matched_chars[OF assms] by (auto simp: list_all_iff)
qed

lemma phone_empty: "mlens PHONE_PATTERN [] = []"
  by (simp add: PHONE_PATTERN_def seqs_def)

lemma phone_len:
  assumes "mlens PHONE_PATTERN s = n # ns"
  shows "10 \<le> n" "n \<le> length s"
  using minlen_le[of n PHONE_PATTERN s] mlens_le[of n PHONE_PATTERN s] assms
  by (simp_all add: phone_minlen)

lemma replace_phone_Nil: "replace_from PHONE_PATTERN f prev [] = []"
  by (simp add: match_at_mlens phone_wb_free phone_empty)

declare replace_from.simps [simp del]

lemma replace_phone_skip:
  "mlens PHONE_PATTERN (c # cs) = [] \<Longrightarrow>
   replace_from PHONE_PATTERN f prev (c # cs) = c # replace_from PHONE_PATTERN f (Some c) cs"
  by (simp add: replace_from.simps match_at_mlens phone_wb_free)

lemma replace_phone_match:
  assumes "mlens PHONE_PATTERN (c # cs) = n # ns"
  shows "replace_from PHONE_PATTERN f prev (c # cs) =
     f (take n (c # cs)) @ replace_from PHONE_PATTERN f (Some (last (take n (c # cs)))) (drop n (c # cs))"
  using assms phone_len(1)[OF assms] by (simp add: replace_from.simps match_at_mlens phone_wb_free)

lemma replace_phone_gap:
  "list_all (\<lambda>c. c \<noteq> CHR ''*'') (take k (replace_from PHONE_PATTERN (\<lambda>m. ''***-***-****'') prev s))
   \<Longrightarrow> take k (replace_from PHONE_PATTERN (\<lambda>m. ''***-***-****'') prev s) = take k s"
proof (induction s arbitrary: prev k rule: length_induct)
  case (1 s)
  show ?case
  proof (cases s)
    case Nil
    then show ?thesis by (simp add: replace_phone_Nil)
  next
    case (Cons c cs)
    show ?thesis
    proof (cases "mlens PHONE_PATTERN (c # cs)")
      case Nil
      show ?thesis
      proof (cases k)
        case 0
        then show ?thesis by simp
      next
        case (Suc j)
        have "take j (replace_from PHONE_PATTERN (\<lambda>m. ''***-***-****'') (Some c) cs) = take j cs"
          using 1 Cons Nil Suc by (simp add: replace_phone_skip)
        then show ?thesis
          using Cons Nil Suc by (simp add: replace_phone_skip)
      qed
    next
      case (Cons n ns)
      then show ?thesis
        using 1(2) \<open>s = c # cs\<close> by (cases k) (simp_all add: replace_phone_match)
    qed
  qed
qed

lemma phone_non_starter:
  assumes "c \<noteq> CHR ''+''" "c \<noteq> CHR ''(''" "\<not> is_digit c"
  shows "mlens PHONE_PATTERN (c # s) = []"
  using phone_first_char[of c s] assms by blast

lemma drop_in_prefix:
  assumes "i < length u"
  shows "\<exists>a w. drop i (u @ y) = a # w \<and> a \<in> set u"
proof -
  have "drop i (u @ y) = (u @ y) ! i # drop (Suc i) (u @ y)"
    using assms by (intro Cons_nth_drop_Suc[symmetric]) simp
  moreover have "(u @ y) ! i = u ! i"
    using assms by (simp add: nth_append)
  moreover have "u ! i \<in> set u"
    using assms by simp
  ultimately show ?thesis by metis
qed

lemma drop_past_prefix: "length u \<le> i \<Longrightarrow> drop i (u @ y) = drop (i - length u) y"
  by simp

lemma replace_phone_free:
  "mlens PHONE_PATTERN (drop i (replace_from PHONE_PATTERN (\<lambda>m. ''***-***-****'') prev s)) = []"
proof (induction s arbitrary: prev i rule: length_induct)
  case (1 s)
  let ?R = "replace_from PHONE_PATTERN (\<lambda>m. ''***-***-****'')"
  show ?case
  proof (cases s)
    case Nil
    then show ?thesis by (simp add: replace_phone_Nil phone_empty)
  next
    case (Cons c cs)
    show ?thesis
    proof (cases "mlens PHONE_PATTERN (c # cs)")
      case Nil
      have R: "?R prev s = c # ?R (Some c) cs"
        using Cons Nil by (simp add: replace_phone_skip)
      show ?thesis
      proof (cases i)
        case 0
        show ?thesis
        proof (rule ccontr)
          assume "mlens PHONE_PATTERN (drop i (?R prev s)) \<noteq> []"
          then obtain n where n: "n \<in> set (mlens PHONE_PATTERN (?R prev s))"
            using 0 by (cases "mlens PHONE_PATTERN (?R prev s)") auto
          have "list_all (\<lambda>c. c \<noteq> CHR ''*'') (take n (?R prev s))"
            using n by (rule phone_no_star)
          then have "take n (?R prev s) = take n s"
            by (rule replace_phone_gap)
          moreover have "n \<in> set (mlens PHONE_PATTERN (take n (?R prev s) @ drop n s))"
            using n by (rule mlens_prefix)
          ultimately have "n \<in> set (mlens PHONE_PATTERN s)"
            by simp
          then show False
            using Cons Nil by simp
        qed
      next
        case (Suc j)
        have "mlens PHONE_PATTERN (drop j (?R (Some c) cs)) = []"
          using 1 Cons by simp
        then show ?thesis
          using R Suc by simp
      qed
    next
      case (Cons n ns)
      have n: "10 \<le> n"
        using phone_len(1)[OF Cons] .
      let ?y = "?R (Some (last (take n (c # cs)))) (drop n (c # cs))"
      have R: "?R prev s = ''***-***-****'' @ ?y"
        using \<open>s = c # cs\<close> Cons by (simp add: replace_phone_match)
      have IH: "mlens PHONE_PATTERN (drop j ?y) = []" for j
        using 1 \<open>s = c # cs\<close> n by simp
      have star: "mlens PHONE_PATTERN (CHR ''*'' # w) = []" for w
        by (rule phone_non_starter) (simp_all add: is_digit_def)
      have dash: "mlens PHONE_PATTERN (CHR ''-'' # w) = []" for w
        by (rule phone_non_starter) (simp_all add: is_digit_def)
      consider "i < 12" | "i \<ge> 12" by linarith
      then show ?thesis
      proof cases
        case 1
        then obtain a w where d: "drop i (''***-***-****'' @ ?y) = a # w"
          and a: "a \<in> set ''***-***-****''"
          using drop_in_prefix[of i "''***-***-****''" ?y] by auto
        from a have "a = CHR ''*'' \<or> a = CHR ''-''"
          by auto
        then show ?thesis
          unfolding R d using star dash by metis
      next
        case 2
        have "drop i (''***-***-****'' @ ?y) = drop (i - length ''***-***-****'') ?y"
          using 2 by (intro drop_past_prefix) simp
        then show ?thesis
          unfolding R using IH by (simp only:)
      qed
    qed
  qed
qed

lemma search_rmatch:
  "search r prev y \<Longrightarrow> \<exists>i p. rmatch r (p, drop i y) \<noteq> []"
proof (induction y arbitrary: prev)
  case Nil
  then have "rmatch r (prev, drop 0 []) \<noteq> []"
    by (auto simp: match_at_def split: list.splits)
  then show ?case by blast
next
  case (Cons c cs)
  show ?case
  proof (cases "match_at r (prev, c # cs) \<noteq> None")
    case True
    then have "rmatch r (prev, drop 0 (c # cs)) \<noteq> []"
      by (auto simp: match_at_def split: list.splits)
    then show ?thesis by blast
  next
    case False
    then have "search r (Some c) cs"
      using Cons.prems by simp
    then obtain i p where "rmatch r (p, drop i cs) \<noteq> []"
      using Cons.IH by blast
    then have "rmatch r (p, drop (Suc i) (c # cs)) \<noteq> []"
      by simp
    then show ?thesis by blast
  qed
qed

lemma no_phone_no_pan:
  assumes "\<And>i. mlens PHONE_PATTERN (drop i y) = []"
  shows "\<not> regex_test PHONE_PATTERN y" and "\<not> regex_test PAN_PATTERN y"
proof -
  show "\<not> regex_test PHONE_PATTERN y"
  proof
    assume "regex_test PHONE_PATTERN y"
    then obtain i p where "rmatch PHONE_PATTERN (p, drop i y) \<noteq> []"
      unfolding regex_test_def using search_rmatch by blast
    then show False
      using assms[of i] by (simp add: rmatch_mlens phone_wb_free)
  qed
  show "\<not> regex_test PAN_PATTERN y"
  proof
    assume "regex_test PAN_PATTERN y"
    then obtain i p where "rmatch PAN_PATTERN (p, drop i y) \<noteq> []"
      unfolding regex_test_def using search_rmatch by blast
    then have "13 \<le> length (takeWhile is_digit (drop i y))"
      using pan_digits[of "(p, drop i y)"] by simp
    then have "mlens PHONE_PATTERN (drop i y) \<noteq> []"
      by (intro phone_ten_digits) simp
    then show False
      using assms[of i] by simp
  qed
qed

lemma search_None_mlens:
  assumes "wb_free r" "\<not> search r prev y"
  shows "mlens r (drop i y) = []"
  using assms(2)
proof (induction y arbitrary: prev i)
  case Nil
  then show ?case
    using assms(1) by (simp add: match_at_mlens split: list.splits)
next
  case (Cons c cs)
  then have head: "mlens r (c # cs) = []" and tail: "\<not> search r (Some c) cs"
    using assms(1) by (auto simp: match_at_mlens split: list.splits)
  show ?case
  proof (cases i)
    case 0
    then show ?thesis using head by simp
  next
    case (Suc j)
    then show ?thesis using Cons.IH[OF tail, of j] by simp
  qed
qed

subsection \<open>Redacted text and values\<close>

lemma redactText_phone_free:
  "mlens PHONE_PATTERN (drop i (fst (redactText s))) = []"
proof (cases "s = []")
  case True
  then show ?thesis by (simp add: redactText_def phone_empty)
next
  case False
  define c1 where "c1 = (if regex_test PAN_PATTERN s
      then replace_all PAN_PATTERN (\<lambda>m. ''****REDACTED****'') s else s)"
  define c2 where "c2 = (if regex_test EMAIL_PATTERN c1
      then replace_all EMAIL_PATTERN mask_email c1 else c1)"
  have T: "fst (redactText s) = (if regex_test PHONE_PATTERN c2
      then replace_all PHONE_PATTERN (\<lambda>m. ''***-***-****'') c2 else c2)"
    using False by (simp add: redactText_def c1_def c2_def Let_def split: prod.splits if_splits)
  show ?thesis
  proof (cases "regex_test PHONE_PATTERN c2")
    case True
    then show ?thesis
      unfolding T by (simp add: replace_all_def replace_phone_free)
  next
    case False
    then show ?thesis
      unfolding T regex_test_def using search_None_mlens[OF phone_wb_free, of None c2 i] by simp
  qed
qed

lemma redactText_fixed:
  assumes "\<not> regex_test PAN_PATTERN t" "\<not> regex_test EMAIL_PATTERN t"
    "\<not> regex_test PHONE_PATTERN t"
  shows "redactText t = (t, False)"
  using assms by (simp add: redactText_def)

lemma redactText_twice:
  assumes "\<not> regex_test EMAIL_PATTERN (fst (redactText s))"
  shows "redactText (fst (redactText s)) = (fst (redactText s), False)"
  using no_phone_no_pan[of "fst (redactText s)", OF redactText_phone_free] assms
  by (intro redactText_fixed)

lemma maskCustomerId_twice:
  assumes "8 \<le> length cid"
  shows "maskCustomerId (maskCustomerId cid) = maskCustomerId cid"
proof -
  define y where "y = take 4 cid @ ''***'' @ drop (length cid - 2) cid"
  have m: "maskCustomerId cid = y"
    using assms by (auto simp: maskCustomerId_def y_def)
  have len: "length y = 9"
    unfolding y_def using assms by simp
  have first4: "take 4 y = take 4 cid"
    unfolding y_def using assms by simp
  have last2: "drop 7 y = drop (length cid - 2) cid"
    unfolding y_def using assms by simp
  have "y \<noteq> []"
    using len by auto
  then have "maskCustomerId y = take 4 y @ ''***'' @ drop 7 y"
    using len by (simp add: maskCustomerId_def)
  also have "\<dots> = y"
    unfolding first4 last2 by (simp add: y_def)
  finally show ?thesis
    by (simp add: m)
qed

lemma redactObject_twice:
  "list_all (\<lambda>t. \<not> regex_test EMAIL_PATTERN t) (strings_of (fst (redactObject x)))
   \<Longrightarrow> redactObject (fst (redactObject x)) = (fst (redactObject x), False)"
proof (induction x)
  case (JString t)
  then show ?case
    using redactText_twice[of t] by simp
next
  case (JArray vs)
  have each: "redactObject (fst (redactObject v)) = (fst (redactObject v), False)"
    if "v \<in> set vs" for v
    using that JArray by (auto simp: list_all_iff)
  have "map fst (map redactObject (map fst (map redactObject vs))) = map fst (map redactObject vs)"
    by (simp add: comp_def each cong: map_cong)
  moreover have "\<not> list_ex snd (map redactObject (map fst (map redactObject vs)))"
    using each by (auto simp: list_ex_iff)
  ultimately show ?case by simp
next
  case (JObject kvs)
  have each: "redactObject (fst (redactObject v)) = (fst (redactObject v), False)"
    if "(k, v) \<in> set kvs" for k v
  proof -
    have "list_all (\<lambda>t. \<not> regex_test EMAIL_PATTERN t) (strings_of (fst (redactObject v)))"
      using that JObject.prems by (force simp: list_all_iff)
    moreover have "v \<in> Basic_BNFs.snds (k, v)"
      by simp
    ultimately show ?thesis
      using JObject.IH[OF that] by blast
  qed
  let ?once = "map (\<lambda>kv. (fst kv, fst (snd kv))) (map (map_prod id redactObject) kvs)"
  have each': "redactObject (fst (redactObject (snd kv))) = (fst (redactObject (snd kv)), False)"
    if "kv \<in> set kvs" for kv
    using each[of "fst kv" "snd kv"] that by simp
  have "map (\<lambda>kv. (fst kv, fst (snd kv))) (map (map_prod id redactObject) ?once) = ?once"
    by (simp add: comp_def each' cong: map_cong)
  moreover have "\<not> list_ex (\<lambda>kv. snd (snd kv)) (map (map_prod id redactObject) ?once)"
    using each' by (auto simp: list_ex_iff)
  ultimately show ?case by simp
qed simp_all

text \<open>
  C6, as the code has it. Redacting a redacted value again changes nothing, and masks
  nothing, provided that no string of the redacted value still contains a match of the
  email pattern: for values (strings, objects, arrays) through \<open>redactObject\<close> and
  for a text through \<open>redactText\<close>. The placeholders of the card-number and the
  phone pattern never match again. Masking a customer id twice is the same as masking
  it once for an id of at least 8 characters.
\<close>

theorem C6_redaction_twice:
  "(list_all (\<lambda>t. \<not> regex_test EMAIL_PATTERN t) (strings_of (fst (redactObject x)))
      \<longrightarrow> redactObject (fst (redactObject x)) = (fst (redactObject x), False))
   \<and> (\<not> regex_test EMAIL_PATTERN (fst (redactText s))
      \<longrightarrow> redactText (fst (redactText s)) = (fst (redactText s), False))
   \<and> (8 \<le> length cid \<longrightarrow> maskCustomerId (maskCustomerId cid) = maskCustomerId cid)"
  using redactObject_twice[of x] redactText_twice[of s] maskCustomerId_twice[of cid]
  by blast

text \<open>
  An object with a card number, an email address and a phone number; a text with a
  phone number; a customer id of ten characters.
\<close>

theorem C6_witness:
  "list_all (\<lambda>t. \<not> regex_test EMAIL_PATTERN t)
     (strings_of (fst (redactObject
        (JObject [(''note'', JString ''card 4111111111111111''),
                  (''contacts'', JArray [JString ''john.doe@example.com'', JString ''+1 (555) 123-4567''])]))))
   \<and> fst (redactObject
        (JObject [(''note'', JString ''card 4111111111111111''),
                  (''contacts'', JArray [JString ''john.doe@example.com'', JString ''+1 (555) 123-4567''])]))
      = JObject [(''note'', JString ''card ****REDACTED****''),
                 (''contacts'', JArray [JString ''jo***@example.com'', JString ''***-***-****''])]
   \<and> redactObject
        (JObject [(''note'', JString ''card ****REDACTED****''),
                  (''contacts'', JArray [JString ''jo***@example.com'', JString ''***-***-****''])])
      = (JObject [(''note'', JString ''card ****REDACTED****''),
                  (''contacts'', JArray [JString ''jo***@example.com'', JString ''***-***-****''])], False)
   \<and> \<not> regex_test EMAIL_PATTERN (fst (redactText ''tel 555.123.4567''))
   \<and> redactText (fst (redactText ''tel 555.123.4567'')) = (''tel ***-***-****'', False)
   \<and> 8 \<le> length ''cust_12345''
   \<and> maskCustomerId (maskCustomerId ''cust_12345'') = ''cust***45''"
proof -
  let ?x = "JObject [(''note'', JString ''card 4111111111111111''),
                  (''contacts'', JArray [JString ''john.doe@example.com'', JString ''+1 (555) 123-4567''])]"
  let ?y = "JObject [(''note'', JString ''card ****REDACTED****''),
                 (''contacts'', JArray [JString ''jo***@example.com'', JString ''***-***-****''])]"
  have once: "fst (redactObject ?x) = ?y"
    by code_simp
  have h1: "list_all (\<lambda>t. \<not> regex_test EMAIL_PATTERN t) (strings_of ?y)"
    by code_simp
  have t1: "fst (redactText ''tel 555.123.4567'') = ''tel ***-***-****''"
    by code_simp
  have h2: "\<not> regex_test EMAIL_PATTERN ''tel ***-***-****''"
    by code_simp
  have m: "maskCustomerId ''cust_12345'' = ''cust***45''"
    by code_simp
  show ?thesis
    using C6_redaction_twice[of ?x "''tel 555.123.4567''" "''cust_12345''"] h1 h2
    by (simp only: once t1 m) simp
qed

text \<open>
  Redaction is not idempotent in general. In \<open>a@b.cc@d.ee\<close> the first pass masks
  \<open>a@b.cc\<close>, and what is left of it makes the local part of a second address,
  \<open>b.cc@d.ee\<close>, which the second pass masks. A customer id shorter than 8 characters
  becomes \<open>***masked***\<close>, which is 12 characters long and is masked again to
  \<open>***m*****\<close>.
\<close>

theorem C6_counterexample:
  "fst (redactText ''a@b.cc@d.ee'') = ''***@b.cc@d.ee''
   \<and> fst (redactText (fst (redactText ''a@b.cc@d.ee''))) = ''***@b.***@d.ee''
   \<and> fst (redactText (fst (redactText ''a@b.cc@d.ee''))) \<noteq> fst (redactText ''a@b.cc@d.ee'')
   \<and> fst (redactObject (fst (redactObject (JString ''a@b.cc@d.ee''))))
       \<noteq> fst (redactObject (JString ''a@b.cc@d.ee''))
   \<and> maskCustomerId ''abc'' = ''***masked***''
   \<and> maskCustomerId (maskCustomerId ''abc'') = ''***m*****''"
  by code_simp

end
